theory Spec2Isabelle
  imports Main "HOL-Library.Word"
begin

section \<open>SIMD array addition (simd\_example.c)\<close>

text \<open>
  The program adds two float arrays element by element. The body of \<open>add_arrays_simd\<close> is
  chosen by the preprocessor: an AVX loop over chunks of 8, an SSE2 loop over chunks of 4, or
  a plain scalar loop; the two vector loops are followed by a scalar loop for what is left.
  A driver allocates three buffers of 1024 floats, fills two of them, adds them and prints
  the first ten sums.

  The embedding keeps what the C code does visible:
  \<^item> memory is a store of float cells, a partial map from cell addresses to values; a pointer
    is the address of a cell and \<open>p[i]\<close> is the cell \<open>p + i\<close>. A cell outside the store is
    not allocated, and touching it is the error \<open>Fault\<close>;
  \<^item> \<open>size_t\<close> is a 64-bit word (the program is written for x86-64), so \<open>i + 8\<close> wraps
    around as in C;
  \<^item> every load, store and line of output is appended to a trace, in program order;
  \<^item> the preprocessor symbols are a record \<open>build_env\<close>;
  \<^item> the float type is a parameter \<open>'f\<close> of the array functions, with its addition
    \<open>fadd\<close>; the driver runs them on the model \<open>f32\<close> of IEEE-754 binary32 given below.
\<close>

subsection \<open>Data\<close>

type_synonym size_t = "64 word"

text \<open>
  \<open>CompileError\<close>: the translation unit is rejected by the compiler.
  \<open>Fault p\<close>: an access to the cell \<open>p\<close>, which is not allocated (undefined behaviour in C).
\<close>

datatype error = CompileError | Fault nat

text \<open>
  \<open>Out s\<close> and \<open>Err s\<close> are one line written to standard output and to standard error.
  \<open>Load p i w\<close> is a read of the \<open>w\<close> consecutive elements \<open>p[i]\<close>, ..., \<open>p[i + w - 1]\<close>,
  \<open>Store p i w\<close> a write of them; \<open>w\<close> is 1 for a scalar access, 8 for a 256-bit and 4 for
  a 128-bit vector access.
\<close>

datatype event = Out string | Err string | Load nat nat nat | Store nat nat nat

record 'f state =
  heap :: "nat \<rightharpoonup> 'f"
  trace :: "event list"

text \<open>
  The symbols the source tests with \<open>#if defined(...)\<close>, and the identifier \<open>SSE2\<close> that
  the SSE2 branch uses in \<open>puts(SSE2 "is detected.")\<close>: \<open>macro_SSE2\<close> is the string literal
  it expands to when the build defines such a macro, \<open>None\<close> when \<open>SSE2\<close> is not defined.
\<close>

record build_env =
  defined_AVX :: bool
  defined_SSE2 :: bool
  macro_SSE2 :: "string option"

subsection \<open>The C library and the intrinsics\<close>

definition puts :: "string \<Rightarrow> 'f state \<Rightarrow> 'f state" where
  "puts s st = st\<lparr>trace := trace st @ [Out s]\<rparr>"

text \<open>
  Modelled from the spec: the intrinsics \<open>_mm256_loadu_ps\<close> and \<open>_mm_loadu_ps\<close> are declared
  in the compiler's headers, not in the repository. The spec says that they load 8 (4)
  consecutive elements into a vector register; \<open>loadu_ps w m p\<close> reads the \<open>w\<close> cells from
  \<open>p\<close> on, lowest lane first.
\<close>

fun loadu_ps :: "nat \<Rightarrow> (nat \<rightharpoonup> 'f) \<Rightarrow> nat \<Rightarrow> error + 'f list" where
  "loadu_ps 0 m p = Inr []"
| "loadu_ps (Suc k) m p =
     (case m p of
        None \<Rightarrow> Inl (Fault p)
      | Some x \<Rightarrow> (case loadu_ps k m (Suc p) of Inl e \<Rightarrow> Inl e | Inr xs \<Rightarrow> Inr (x # xs)))"

text \<open>
  Modelled from the spec: \<open>_mm256_add_ps\<close> and \<open>_mm_add_ps\<close>, "a single vector add": the
  lanes are added pairwise with the scalar addition.
\<close>

definition add_ps :: "('f \<Rightarrow> 'f \<Rightarrow> 'f) \<Rightarrow> 'f list \<Rightarrow> 'f list \<Rightarrow> 'f list" where
  "add_ps fadd va vb = map2 fadd va vb"

text \<open>
  Modelled from the spec: \<open>_mm256_storeu_ps\<close> and \<open>_mm_storeu_ps\<close> store the lanes of the
  result into the consecutive cells from \<open>p\<close> on.
\<close>

fun storeu_ps :: "(nat \<rightharpoonup> 'f) \<Rightarrow> nat \<Rightarrow> 'f list \<Rightarrow> error + (nat \<rightharpoonup> 'f)" where
  "storeu_ps m p [] = Inr m"
| "storeu_ps m p (x # xs) =
     (case m p of
        None \<Rightarrow> Inl (Fault p)
      | Some _ \<Rightarrow> storeu_ps (m(p \<mapsto> x)) (Suc p) xs)"

subsection \<open>add\_arrays\_simd\<close>

text \<open>
  The body of a vector loop (lines 37 to 40 and 53 to 56): two unaligned loads, one vector
  add, one unaligned store at index \<open>i\<close>; \<open>w\<close> is 8 in the AVX loop and 4 in the SSE2 loop.
\<close>

definition vec_step ::
  "nat \<Rightarrow> ('f \<Rightarrow> 'f \<Rightarrow> 'f) \<Rightarrow> nat \<Rightarrow> nat \<Rightarrow> nat \<Rightarrow> size_t \<Rightarrow> 'f state \<Rightarrow> error + 'f state" where
  "vec_step w fadd a b c i st =
     (case loadu_ps w (heap st) (a + unat i) of
        Inl e \<Rightarrow> Inl e
      | Inr va \<Rightarrow>
         (case loadu_ps w (heap st) (b + unat i) of
            Inl e \<Rightarrow> Inl e
          | Inr vb \<Rightarrow>
             (case storeu_ps (heap st) (c + unat i) (add_ps fadd va vb) of
                Inl e \<Rightarrow> Inl e
              | Inr h \<Rightarrow>
                 Inr (st\<lparr>heap := h,
                         trace := trace st @
                           [Load a (unat i) w, Load b (unat i) w, Store c (unat i) w]\<rparr>))))"

text \<open>
  \<open>for (i = 0; i + 8 <= n; i += 8)\<close> and \<open>for (i = 0; i + 4 <= n; i += 4)\<close>, from the
  value \<open>i\<close> on. The sum \<open>i + w\<close> is a 64-bit sum and can wrap around, so the loop is not
  total: \<open>None\<close> is a run that never leaves the loop. The result is the final \<open>i\<close>, which the
  remainder loop continues from, and the state.
\<close>

partial_function (option) vec_loop ::
  "nat \<Rightarrow> ('f \<Rightarrow> 'f \<Rightarrow> 'f) \<Rightarrow> nat \<Rightarrow> nat \<Rightarrow> nat \<Rightarrow> size_t \<Rightarrow> size_t \<Rightarrow> 'f state
     \<Rightarrow> (error + size_t \<times> 'f state) option" where
  "vec_loop w fadd a b c n i st =
     (if i + of_nat w \<le> n then
        (case vec_step w fadd a b c i st of
           Inl e \<Rightarrow> Some (Inl e)
         | Inr st' \<Rightarrow> vec_loop w fadd a b c n (i + of_nat w) st')
      else Some (Inr (i, st)))"

declare vec_loop.simps [code]

text \<open>\<open>c[i] = a[i] + b[i];\<close> (lines 45, 61 and 68).\<close>

definition scalar_step ::
  "('f \<Rightarrow> 'f \<Rightarrow> 'f) \<Rightarrow> nat \<Rightarrow> nat \<Rightarrow> nat \<Rightarrow> size_t \<Rightarrow> 'f state \<Rightarrow> error + 'f state" where
  "scalar_step fadd a b c i st =
     (case heap st (a + unat i) of
        None \<Rightarrow> Inl (Fault (a + unat i))
      | Some x \<Rightarrow>
         (case heap st (b + unat i) of
            None \<Rightarrow> Inl (Fault (b + unat i))
          | Some y \<Rightarrow>
             (case heap st (c + unat i) of
                None \<Rightarrow> Inl (Fault (c + unat i))
              | Some _ \<Rightarrow>
                 Inr (st\<lparr>heap := (heap st)(c + unat i \<mapsto> fadd x y),
                         trace := trace st @
                           [Load a (unat i) 1, Load b (unat i) 1, Store c (unat i) 1]\<rparr>))))"

text \<open>
  \<open>for (; i < n; ++i)\<close>, from the value \<open>i\<close> on: the remainder loop of the two vector
  branches and, from 0, the whole loop of the scalar branch.
\<close>

function scalar_loop ::
  "('f \<Rightarrow> 'f \<Rightarrow> 'f) \<Rightarrow> nat \<Rightarrow> nat \<Rightarrow> nat \<Rightarrow> size_t \<Rightarrow> size_t \<Rightarrow> 'f state \<Rightarrow> error + 'f state" where
  "scalar_loop fadd a b c n i st =
     (if i < n then
        (case scalar_step fadd a b c i st of
           Inl e \<Rightarrow> Inl e
         | Inr st' \<Rightarrow> scalar_loop fadd a b c n (i + 1) st')
      else Inr st)"
  by pat_completeness auto
termination
  by (relation "measure (\<lambda>(fadd, a, b, c, n, i, st). unat n - unat i)") (simp, unat_arith)

declare scalar_loop.simps [simp del]

text \<open>
  The function, with its \<open>#if defined(__AVX__)\<close> ... \<open>#elif defined(__SSE2__)\<close> ... \<open>#else\<close>
  chain. In the SSE2 branch the argument of \<open>puts\<close> is the identifier \<open>SSE2\<close> followed by
  the literal \<open>"is detected."\<close>: where \<open>SSE2\<close> is a macro for a string literal the two are
  concatenated, and where it is not defined the compiler rejects the program.
\<close>

definition add_arrays_simd ::
  "build_env \<Rightarrow> ('f \<Rightarrow> 'f \<Rightarrow> 'f) \<Rightarrow> nat \<Rightarrow> nat \<Rightarrow> nat \<Rightarrow> size_t \<Rightarrow> 'f state
     \<Rightarrow> (error + 'f state) option" where
  "add_arrays_simd env fadd a b c n st =
     (if defined_AVX env then
        (case vec_loop 8 fadd a b c n 0 (puts ''AVX is detected.'' st) of
           None \<Rightarrow> None
         | Some (Inl e) \<Rightarrow> Some (Inl e)
         | Some (Inr (i, st')) \<Rightarrow> Some (scalar_loop fadd a b c n i st'))
      else if defined_SSE2 env then
        (case macro_SSE2 env of
           None \<Rightarrow> Some (Inl CompileError)
         | Some s \<Rightarrow>
            (case vec_loop 4 fadd a b c n 0 (puts (s @ ''is detected.'') st) of
               None \<Rightarrow> None
             | Some (Inl e) \<Rightarrow> Some (Inl e)
             | Some (Inr (i, st')) \<Rightarrow> Some (scalar_loop fadd a b c n i st')))
      else Some (scalar_loop fadd a b c n 0 (puts ''no SIMD extension is detected.'' st)))"


subsection \<open>initialize\_arrays\<close>

text \<open>
  \<open>a[i] = (float)i; b[i] = (float)(n - i);\<close> with the conversion \<open>to_float\<close> from
  \<open>size_t\<close> to the float type as a parameter; \<open>n - i\<close> is the 64-bit difference.
\<close>

definition init_step ::
  "(size_t \<Rightarrow> 'f) \<Rightarrow> nat \<Rightarrow> nat \<Rightarrow> size_t \<Rightarrow> size_t \<Rightarrow> 'f state \<Rightarrow> error + 'f state" where
  "init_step to_float a b n i st =
     (case heap st (a + unat i) of
        None \<Rightarrow> Inl (Fault (a + unat i))
      | Some _ \<Rightarrow>
         (let h = (heap st)(a + unat i \<mapsto> to_float i)
          in (case h (b + unat i) of
                None \<Rightarrow> Inl (Fault (b + unat i))
              | Some _ \<Rightarrow>
                 Inr (st\<lparr>heap := h(b + unat i \<mapsto> to_float (n - i)),
                         trace := trace st @ [Store a (unat i) 1, Store b (unat i) 1]\<rparr>))))"

text \<open>\<open>for (size_t i = 0; i < n; ++i)\<close>, from the value \<open>i\<close> on.\<close>

function init_loop ::
  "(size_t \<Rightarrow> 'f) \<Rightarrow> nat \<Rightarrow> nat \<Rightarrow> size_t \<Rightarrow> size_t \<Rightarrow> 'f state \<Rightarrow> error + 'f state" where
  "init_loop to_float a b n i st =
     (if i < n then
        (case init_step to_float a b n i st of
           Inl e \<Rightarrow> Inl e
         | Inr st' \<Rightarrow> init_loop to_float a b n (i + 1) st')
      else Inr st)"
  by pat_completeness auto
termination
  by (relation "measure (\<lambda>(to_float, a, b, n, i, st). unat n - unat i)") (simp, unat_arith)

declare init_loop.simps [simp del]

definition initialize_arrays ::
  "(size_t \<Rightarrow> 'f) \<Rightarrow> nat \<Rightarrow> nat \<Rightarrow> size_t \<Rightarrow> 'f state \<Rightarrow> error + 'f state" where
  "initialize_arrays to_float a b n st = init_loop to_float a b n 0 st"

subsection \<open>The float type of the driver\<close>

text \<open>
  IEEE-754 binary32, the type \<open>float\<close> of the targets the program is written for. Every
  finite binary32 value is a multiple of 2 to the power -149: \<open>Finite s k\<close> is the value
  \<open>k / 2 ^ 149\<close>, negated when \<open>s\<close> holds, so both zeros are there. \<open>Infinite s\<close> is the
  infinity of that sign. The NaNs are one value: their payloads are not modelled.
\<close>

datatype f32 = Finite bool nat | Infinite bool | NaN

text \<open>The number of binary digits of \<open>k\<close>.\<close>

fun bitlen :: "nat \<Rightarrow> nat" where
  "bitlen k = (if k = 0 then 0 else Suc (bitlen (k div 2)))"

declare bitlen.simps [simp del]

text \<open>
  Rounding to 24 significant bits, to nearest and to even on a tie: the default rounding of
  binary32. A number of at most 24 bits is kept as it is (this covers the subnormal range,
  where the scaled values are below \<open>2 ^ 24\<close>).
\<close>

definition rne24 :: "nat \<Rightarrow> nat" where
  "rne24 k =
     (let sh = bitlen k - 24; q = k div 2 ^ sh; r = k mod 2 ^ sh
      in if sh = 0 then k
         else if 2 ^ (sh - 1) < r \<or> (r = 2 ^ (sh - 1) \<and> odd q) then (q + 1) * 2 ^ sh
         else q * 2 ^ sh)"

text \<open>
  The float nearest to \<open>k / 2 ^ 149\<close>; what rounds to \<open>2 ^ 128\<close> or more overflows to
  infinity.
\<close>

definition pack :: "bool \<Rightarrow> nat \<Rightarrow> f32" where
  "pack s k = (let r = rne24 k in if 2 ^ 277 \<le> r then Infinite s else Finite s r)"

text \<open>The operator \<open>+\<close> on two floats: the exact sum, rounded.\<close>

fun f32_add :: "f32 \<Rightarrow> f32 \<Rightarrow> f32" where
  "f32_add NaN y = NaN"
| "f32_add x NaN = NaN"
| "f32_add (Infinite s) (Infinite t) = (if s = t then Infinite s else NaN)"
| "f32_add (Infinite s) (Finite t k) = Infinite s"
| "f32_add (Finite s j) (Infinite t) = Infinite t"
| "f32_add (Finite s j) (Finite t k) =
     (if s = t then pack s (j + k)
      else if j = k then Finite False 0
      else if k < j then pack s (j - k)
      else pack t (k - j))"

text \<open>The conversion \<open>(float)i\<close> of a \<open>size_t\<close>.\<close>

definition f32_of_size :: "size_t \<Rightarrow> f32" where
  "f32_of_size i = pack False (unat i * 2 ^ 149)"

subsection \<open>The driver\<close>

text \<open>The decimal digits of a number, as \<open>%zu\<close> prints it.\<close>

fun digits :: "nat \<Rightarrow> string" where
  "digits k =
     (if k < 10 then [''0123456789'' ! k]
      else digits (k div 10) @ [''0123456789'' ! (k mod 10)])"

declare digits.simps [simp del]

text \<open>
  The conversion \<open>%f\<close> of \<open>printf\<close>: the value with six digits after the decimal point,
  rounded to nearest, to even on a tie.
\<close>

definition fmt_f :: "f32 \<Rightarrow> string" where
  "fmt_f x =
     (case x of
        NaN \<Rightarrow> ''nan''
      | Infinite s \<Rightarrow> (if s then ''-inf'' else ''inf'')
      | Finite s k \<Rightarrow>
          (let q = k * 10 ^ 6 div 2 ^ 149; r = k * 10 ^ 6 mod 2 ^ 149;
               m = (if 2 ^ 148 < r \<or> (r = 2 ^ 148 \<and> odd q) then q + 1 else q);
               frac = digits (m mod 10 ^ 6)
           in (if s then ''-'' else []) @ digits (m div 10 ^ 6) @ ''.''
              @ replicate (6 - length frac) (CHR ''0'') @ frac))"

text \<open>
  \<open>malloc\<close> belongs to the C library, and what it returns is an input of the model:
  \<open>None\<close> is the null pointer, \<open>Some p\<close> a block that starts at the cell \<open>p\<close>. The block
  has one cell for every 4 bytes asked for (\<open>sizeof(float)\<close> is 4), and its contents are
  indeterminate: \<open>junk\<close> gives them.
\<close>

definition malloc ::
  "nat option \<Rightarrow> (nat \<Rightarrow> 'f) \<Rightarrow> size_t \<Rightarrow> 'f state \<Rightarrow> nat option \<times> 'f state" where
  "malloc r junk bytes st =
     (case r of
        None \<Rightarrow> (None, st)
      | Some p \<Rightarrow>
         (Some p,
          st\<lparr>heap := (\<lambda>q. if p \<le> q \<and> q < p + unat bytes div 4 then Some (junk q)
                         else heap st q)\<rparr>))"

text \<open>\<open>free\<close>, with the size of the block, which the allocator knows.\<close>

definition free :: "nat \<Rightarrow> nat \<Rightarrow> 'f state \<Rightarrow> 'f state" where
  "free p cells st = st\<lparr>heap := (\<lambda>q. if p \<le> q \<and> q < p + cells then None else heap st q)\<rparr>"

text \<open>\<open>printf("c[%zu] = %f\n", i, c[i]);\<close>\<close>

definition print_step :: "nat \<Rightarrow> size_t \<Rightarrow> f32 state \<Rightarrow> error + f32 state" where
  "print_step c i st =
     (case heap st (c + unat i) of
        None \<Rightarrow> Inl (Fault (c + unat i))
      | Some x \<Rightarrow>
         Inr (st\<lparr>trace := trace st @
                  [Load c (unat i) 1, Out (''c['' @ digits (unat i) @ ''] = '' @ fmt_f x)]\<rparr>))"

text \<open>\<open>for (size_t i = 0; i < 10; ++i)\<close>, from the value \<open>i\<close> on.\<close>

function print_loop :: "nat \<Rightarrow> size_t \<Rightarrow> f32 state \<Rightarrow> error + f32 state" where
  "print_loop c i st =
     (if i < 10 then
        (case print_step c i st of
           Inl e \<Rightarrow> Inl e
         | Inr st' \<Rightarrow> print_loop c (i + 1) st')
      else Inr st)"
  by pat_completeness auto
termination
  by (relation "measure (\<lambda>(c, i, st). 10 - unat i)") (simp, unat_arith, simp)

declare print_loop.simps [simp del]

text \<open>
  The translation unit compiles unless the SSE2 branch is the active one and \<open>SSE2\<close> is not
  a macro: of the three branches only that one mentions an identifier the file does not
  declare.
\<close>

definition compiles :: "build_env \<Rightarrow> bool" where
  "compiles env \<longleftrightarrow> defined_AVX env \<or> \<not> defined_SSE2 env \<or> macro_SSE2 env \<noteq> None"

text \<open>
  \<open>main\<close>. \<open>ra\<close>, \<open>rb\<close> and \<open>rc\<close> are what the three calls of \<open>malloc\<close> return. The result is
  the exit status and the final state.
\<close>

definition main ::
  "build_env \<Rightarrow> nat option \<Rightarrow> nat option \<Rightarrow> nat option \<Rightarrow> (nat \<Rightarrow> f32) \<Rightarrow> f32 state
     \<Rightarrow> (error + int \<times> f32 state) option" where
  "main env ra rb rc junk st =
     (if \<not> compiles env then Some (Inl CompileError)
      else
        let n = 1024;
            (a, st1) = malloc ra junk (n * 4) st;
            (b, st2) = malloc rb junk (n * 4) st1;
            (c, st3) = malloc rc junk (n * 4) st2
        in (case (a, b, c) of
              (Some a, Some b, Some c) \<Rightarrow>
                (case initialize_arrays f32_of_size a b n st3 of
                   Inl e \<Rightarrow> Some (Inl e)
                 | Inr st4 \<Rightarrow>
                    (case add_arrays_simd env f32_add a b c n st4 of
                       None \<Rightarrow> None
                     | Some (Inl e) \<Rightarrow> Some (Inl e)
                     | Some (Inr st5) \<Rightarrow>
                        (case print_loop c 0 st5 of
                           Inl e \<Rightarrow> Some (Inl e)
                         | Inr st6 \<Rightarrow>
                            Some (Inr (0, free c 1024 (free b 1024 (free a 1024 st6)))))))
            | _ \<Rightarrow> Some (Inr (1, st3\<lparr>trace := trace st3 @ [Err ''Memory allocation failed'']\<rparr>))))"

section \<open>Vocabulary of the claims\<close>

text \<open>
  The number of float cells that a 64-bit address space holds: a cell is 4 bytes.
\<close>

definition cell_limit :: nat where
  "cell_limit = 2 ^ 64 div 4"

text \<open>
  \<open>buffer m p n\<close>: the store \<open>m\<close> holds a buffer of \<open>n\<close> floats at \<open>p\<close>, that is the cells
  \<open>p\<close>, ..., \<open>p + n - 1\<close> are allocated and lie inside the address space. So \<open>n\<close> is at
  most \<open>2 ^ 62\<close>, as the length of every array of floats is, and \<open>i + 8\<close> does not wrap
  around for an index \<open>i\<close> of the buffer.
\<close>

definition buffer :: "(nat \<rightharpoonup> 'f) \<Rightarrow> nat \<Rightarrow> size_t \<Rightarrow> bool" where
  "buffer m p n \<longleftrightarrow> p + unat n \<le> cell_limit \<and> (\<forall>i<unat n. m (p + i) \<noteq> None)"

text \<open>
  Two buffers of \<open>n\<close> elements, at \<open>p\<close> and at \<open>q\<close>, do not overlap.
\<close>

definition disjoint :: "nat \<Rightarrow> nat \<Rightarrow> size_t \<Rightarrow> bool" where
  "disjoint p q n \<longleftrightarrow> p + unat n \<le> q \<or> q + unat n \<le> p"

text \<open>
  The store \<open>m\<close> after the first \<open>k\<close> elements of \<open>c\<close> have received the sums of the
  elements of \<open>a\<close> and \<open>b\<close> as \<open>m\<close> holds them.
\<close>

definition summed :: "('f \<Rightarrow> 'f \<Rightarrow> 'f) \<Rightarrow> (nat \<rightharpoonup> 'f) \<Rightarrow> nat \<Rightarrow> nat \<Rightarrow> nat \<Rightarrow> nat \<Rightarrow> (nat \<rightharpoonup> 'f)" where
  "summed fadd m a b c k =
     (\<lambda>q. if c \<le> q \<and> q < c + k
          then Some (fadd (the (m (a + (q - c)))) (the (m (b + (q - c)))))
          else m q)"

text \<open>
  The accesses of the vector loop for the chunks \<open>k\<close>, ..., \<open>l - 1\<close> of width \<open>w\<close>, in
  order: chunk \<open>j\<close> starts at the index \<open>j * w\<close>.
\<close>

definition vec_events :: "nat \<Rightarrow> nat \<Rightarrow> nat \<Rightarrow> nat \<Rightarrow> nat \<Rightarrow> nat \<Rightarrow> event list" where
  "vec_events w a b c k l =
     concat (map (\<lambda>j. [Load a (j * w) w, Load b (j * w) w, Store c (j * w) w]) [k..<l])"

text \<open>
  The accesses of the scalar loop for the indices \<open>lo\<close>, ..., \<open>hi - 1\<close>, in order.
\<close>

definition scalar_events :: "nat \<Rightarrow> nat \<Rightarrow> nat \<Rightarrow> nat \<Rightarrow> nat \<Rightarrow> event list" where
  "scalar_events a b c lo hi =
     concat (map (\<lambda>i. [Load a i 1, Load b i 1, Store c i 1]) [lo..<hi])"

text \<open>
  The store after one step that adds the \<open>w\<close> elements from the index \<open>k\<close> on.
\<close>

definition blockadd ::
  "('f \<Rightarrow> 'f \<Rightarrow> 'f) \<Rightarrow> (nat \<rightharpoonup> 'f) \<Rightarrow> nat \<Rightarrow> nat \<Rightarrow> nat \<Rightarrow> nat \<Rightarrow> nat \<Rightarrow> (nat \<rightharpoonup> 'f)" where
  "blockadd fadd h a b c k w =
     (\<lambda>q. if c + k \<le> q \<and> q < c + k + w
          then Some (fadd (the (h (a + k + (q - (c + k))))) (the (h (b + k + (q - (c + k))))))
          else h q)"

text \<open>
  The line that a build which compiles prints first.
\<close>

definition diagnostic :: "build_env \<Rightarrow> string" where
  "diagnostic env =
     (if defined_AVX env then ''AVX is detected.''
      else if defined_SSE2 env then (case macro_SSE2 env of None \<Rightarrow> [] | Some s \<Rightarrow> s @ ''is detected.'')
      else ''no SIMD extension is detected.'')"

text \<open>
  The accesses of one call on arrays of \<open>n\<close> elements, for each of the three branches.
\<close>

definition accesses :: "build_env \<Rightarrow> nat \<Rightarrow> nat \<Rightarrow> nat \<Rightarrow> nat \<Rightarrow> event list" where
  "accesses env a b c n =
     (if defined_AVX env then vec_events 8 a b c 0 (n div 8) @ scalar_events a b c (n div 8 * 8) n
      else if defined_SSE2 env then vec_events 4 a b c 0 (n div 4) @ scalar_events a b c (n div 4 * 4) n
      else scalar_events a b c 0 n)"

text \<open>
  An access of a call on \<open>a\<close>, \<open>b\<close>, \<open>c\<close> and \<open>n\<close> is in bounds when it reads \<open>a\<close> or \<open>b\<close>,
  or writes \<open>c\<close>, and all the indices it touches are below \<open>n\<close>.
\<close>

fun in_bounds :: "nat \<Rightarrow> nat \<Rightarrow> nat \<Rightarrow> nat \<Rightarrow> event \<Rightarrow> bool" where
  "in_bounds a b c n (Load p i w) = ((p = a \<or> p = b) \<and> i + w \<le> n)"
| "in_bounds a b c n (Store p i w) = (p = c \<and> i + w \<le> n)"
| "in_bounds a b c n (Out s) = True"
| "in_bounds a b c n (Err s) = True"

text \<open>
  Three builds: AVX (where the compiler defines the SSE2 symbol too), SSE2 alone with
  \<open>SSE2\<close> defined on the command line as the literal \<open>"SSE2 "\<close>, and neither.
\<close>

definition wide_build :: build_env where
  "wide_build = \<lparr>defined_AVX = True, defined_SSE2 = True, macro_SSE2 = None\<rparr>"

definition narrow_build :: build_env where
  "narrow_build = \<lparr>defined_AVX = False, defined_SSE2 = True, macro_SSE2 = Some ''SSE2 ''\<rparr>"

definition scalar_build :: build_env where
  "scalar_build = \<lparr>defined_AVX = False, defined_SSE2 = False, macro_SSE2 = None\<rparr>"

text \<open>
  A store of 27 cells, cell \<open>p\<close> holding the number \<open>p\<close>: three buffers of 9 elements at
  0, 9 and 18, for the examples. The element type is \<open>int\<close> there and the addition is \<open>+\<close>.
\<close>

definition demo :: "int state" where
  "demo = \<lparr>heap = (\<lambda>p. if p < 27 then Some (int p) else None), trace = []\<rparr>"

text \<open>
  The store \<open>m\<close> after the first \<open>k\<close> rounds of the loop of \<open>initialize_arrays\<close>.
\<close>

definition initialized ::
  "(size_t \<Rightarrow> 'f) \<Rightarrow> (nat \<rightharpoonup> 'f) \<Rightarrow> nat \<Rightarrow> nat \<Rightarrow> size_t \<Rightarrow> nat \<Rightarrow> (nat \<rightharpoonup> 'f)" where
  "initialized to_float m a b n k =
     (\<lambda>q. if a \<le> q \<and> q < a + k then Some (to_float (of_nat (q - a)))
          else if b \<le> q \<and> q < b + k then Some (to_float (n - of_nat (q - b)))
          else m q)"

text \<open>
  The accesses of \<open>initialize_arrays\<close> for the indices \<open>lo\<close>, ..., \<open>hi - 1\<close>, in order.
\<close>

definition init_events :: "nat \<Rightarrow> nat \<Rightarrow> nat \<Rightarrow> nat \<Rightarrow> event list" where
  "init_events a b lo hi = concat (map (\<lambda>i. [Store a i 1, Store b i 1]) [lo..<hi])"

text \<open>
  What the printing loop of the driver does for the indices \<open>lo\<close>, ..., \<open>hi - 1\<close>: it reads
  \<open>c[i]\<close> and writes one line.
\<close>

definition print_events :: "(nat \<rightharpoonup> f32) \<Rightarrow> nat \<Rightarrow> nat \<Rightarrow> nat \<Rightarrow> event list" where
  "print_events h c lo hi =
     concat (map (\<lambda>i. [Load c i 1, Out (''c['' @ digits i @ ''] = '' @ fmt_f (the (h (c + i))))])
       [lo..<hi])"

text \<open>
  The lines of standard output in a trace, in order.
\<close>

definition stdout_of :: "event list \<Rightarrow> string list" where
  "stdout_of t = concat (map (\<lambda>e. case e of Out s \<Rightarrow> [s] | _ \<Rightarrow> []) t)"

text \<open>
  The state of the driver after its three calls of \<open>malloc\<close>, when they return the blocks
  at \<open>a\<close>, \<open>b\<close> and \<open>c\<close>.
\<close>

definition after_mallocs :: "nat \<Rightarrow> nat \<Rightarrow> nat \<Rightarrow> (nat \<Rightarrow> 'f) \<Rightarrow> 'f state \<Rightarrow> 'f state" where
  "after_mallocs a b c junk st =
     snd (malloc (Some c) junk (1024 * 4)
       (snd (malloc (Some b) junk (1024 * 4)
         (snd (malloc (Some a) junk (1024 * 4) st)))))"

text \<open>
  A state with nothing allocated and nothing printed, for the examples.
\<close>

definition fresh :: "f32 state" where
  "fresh = \<lparr>heap = Map.empty, trace = []\<rparr>"

section \<open>The loops, step by step\<close>

subsection \<open>The intrinsics\<close>

lemma loadu_ps_ok:
  "(\<forall>k<w. m (p + k) \<noteq> None) \<Longrightarrow> loadu_ps w m p = Inr (map (\<lambda>k. the (m (p + k))) [0..<w])"
proof (induction w arbitrary: p)
  case 0
  then show ?case by simp
next
  case (Suc w)
  from Suc.prems have here: "m p \<noteq> None"
    by (metis add.right_neutral zero_less_Suc)
  from Suc.prems have "\<forall>k<w. m (Suc p + k) \<noteq> None"
    by (metis Suc_less_eq add_Suc add_Suc_right)
  then have "loadu_ps w m (Suc p) = Inr (map (\<lambda>k. the (m (Suc p + k))) [0..<w])"
    by (rule Suc.IH)
  with here show ?case
    by (auto simp: map_upt_Suc simp del: upt_Suc)
qed

lemma storeu_ps_ok:
  "(\<forall>k<length xs. m (p + k) \<noteq> None) \<Longrightarrow>
   storeu_ps m p xs = Inr (\<lambda>q. if p \<le> q \<and> q < p + length xs then Some (xs ! (q - p)) else m q)"
proof (induction xs arbitrary: m p)
  case Nil
  then show ?case by (auto intro!: ext)
next
  case (Cons x xs)
  from Cons.prems have here: "m p \<noteq> None"
    by (metis add.right_neutral length_Cons zero_less_Suc)
  have "\<forall>k<length xs. (m(p \<mapsto> x)) (Suc p + k) \<noteq> None"
    using Cons.prems by (metis Suc_less_eq add_Suc add_Suc_right fun_upd_apply length_Cons option.distinct(1))
  then have "storeu_ps (m(p \<mapsto> x)) (Suc p) xs =
        Inr (\<lambda>q. if Suc p \<le> q \<and> q < Suc p + length xs then Some (xs ! (q - Suc p)) else (m(p \<mapsto> x)) q)"
    by (rule Cons.IH)
  moreover have "(\<lambda>q. if Suc p \<le> q \<and> q < Suc p + length xs then Some (xs ! (q - Suc p)) else (m(p \<mapsto> x)) q)
               = (\<lambda>q. if p \<le> q \<and> q < p + length (x # xs) then Some ((x # xs) ! (q - p)) else m q)"
    by (rule ext) (auto simp: nth_Cons' Suc_diff_Suc)
  ultimately show ?case using here by auto
qed

subsection \<open>Buffers and loop guards\<close>

lemma buffer_cell: "buffer m p n \<Longrightarrow> i < unat n \<Longrightarrow> m (p + i) \<noteq> None"
  by (simp add: buffer_def)

lemma buffer_limit: "buffer m p n \<Longrightarrow> unat n \<le> cell_limit"
  by (simp add: buffer_def)

lemma unat_index: "k < 2 ^ 64 \<Longrightarrow> unat (of_nat k :: size_t) = k"
  by (simp add: unat_of_nat)

lemma chunk_guard:
  assumes "k \<le> unat n" and "unat n \<le> cell_limit" and "w \<le> 8"
  shows "((of_nat k :: size_t) + of_nat w \<le> n) = (k + w \<le> unat n)"
proof -
  have "k + w < 2 ^ 64"
    using assms by (simp add: cell_limit_def)
  then have "unat (of_nat (k + w) :: size_t) = k + w"
    by (rule unat_index)
  then show ?thesis
    by (simp add: word_le_nat_alt)
qed

subsection \<open>The vector loop\<close>

lemma vec_step_ok:
  assumes "\<forall>j<w. h (a + unat i + j) \<noteq> None"
    and "\<forall>j<w. h (b + unat i + j) \<noteq> None"
    and "\<forall>j<w. h (c + unat i + j) \<noteq> None"
  shows "vec_step w fadd a b c i \<lparr>heap = h, trace = t\<rparr> =
    Inr \<lparr>heap = (\<lambda>q. if c + unat i \<le> q \<and> q < c + unat i + w
                      then Some (fadd (the (h (a + unat i + (q - (c + unat i)))))
                                      (the (h (b + unat i + (q - (c + unat i))))))
                      else h q),
         trace = t @ [Load a (unat i) w, Load b (unat i) w, Store c (unat i) w]\<rparr>"
proof -
  let ?va = "map (\<lambda>j. the (h (a + unat i + j))) [0..<w]"
  let ?vb = "map (\<lambda>j. the (h (b + unat i + j))) [0..<w]"
  have la: "loadu_ps w h (a + unat i) = Inr ?va"
    using assms(1) by (rule loadu_ps_ok)
  have lb: "loadu_ps w h (b + unat i) = Inr ?vb"
    using assms(2) by (rule loadu_ps_ok)
  have len: "length (add_ps fadd ?va ?vb) = w"
    by (simp add: add_ps_def)
  have nth: "add_ps fadd ?va ?vb ! j = fadd (the (h (a + unat i + j))) (the (h (b + unat i + j)))"
    if "j < w" for j
    using that by (simp add: add_ps_def)
  have "\<forall>j<length (add_ps fadd ?va ?vb). h (c + unat i + j) \<noteq> None"
    using assms(3) by (simp only: len)
  then have "storeu_ps h (c + unat i) (add_ps fadd ?va ?vb) =
      Inr (\<lambda>q. if c + unat i \<le> q \<and> q < c + unat i + length (add_ps fadd ?va ?vb)
               then Some (add_ps fadd ?va ?vb ! (q - (c + unat i))) else h q)"
    by (rule storeu_ps_ok)
  also have "(\<lambda>q. if c + unat i \<le> q \<and> q < c + unat i + length (add_ps fadd ?va ?vb)
               then Some (add_ps fadd ?va ?vb ! (q - (c + unat i))) else h q) =
      (\<lambda>q. if c + unat i \<le> q \<and> q < c + unat i + w
                      then Some (fadd (the (h (a + unat i + (q - (c + unat i)))))
                                      (the (h (b + unat i + (q - (c + unat i))))))
                      else h q)"
  proof (rule ext)
    fix q
    show "(if c + unat i \<le> q \<and> q < c + unat i + length (add_ps fadd ?va ?vb)
               then Some (add_ps fadd ?va ?vb ! (q - (c + unat i))) else h q) =
      (if c + unat i \<le> q \<and> q < c + unat i + w
                      then Some (fadd (the (h (a + unat i + (q - (c + unat i)))))
                                      (the (h (b + unat i + (q - (c + unat i))))))
                      else h q)"
    proof (cases "c + unat i \<le> q \<and> q < c + unat i + w")
      case True
      then have "q - (c + unat i) < w" by arith
      then show ?thesis using True by (simp only: len nth if_True)
    next
      case False
      then show ?thesis by (simp only: len if_False)
    qed
  qed
  finally have st: "storeu_ps h (c + unat i) (add_ps fadd ?va ?vb) =
      Inr (\<lambda>q. if c + unat i \<le> q \<and> q < c + unat i + w
                      then Some (fadd (the (h (a + unat i + (q - (c + unat i)))))
                                      (the (h (b + unat i + (q - (c + unat i))))))
                      else h q)" .
  show ?thesis
    by (simp add: vec_step_def la lb st del: upt_Suc)
qed

lemma vec_events_step:
  "k < l \<Longrightarrow> [Load a (k * w) w, Load b (k * w) w, Store c (k * w) w] @ vec_events w a b c (Suc k) l
     = vec_events w a b c k l"
  by (simp add: vec_events_def upt_conv_Cons)

lemma vec_loop_rule:
  fixes P :: "nat \<Rightarrow> (nat \<rightharpoonup> 'f) \<Rightarrow> bool"
  assumes step: "\<And>k h t. k * w + w \<le> unat n \<Longrightarrow> P k h \<Longrightarrow>
      \<exists>h'. vec_step w fadd a b c (of_nat (k * w)) \<lparr>heap = h, trace = t\<rparr> =
             Inr \<lparr>heap = h', trace = t @ [Load a (k * w) w, Load b (k * w) w, Store c (k * w) w]\<rparr>
           \<and> P (Suc k) h'"
    and w: "0 < w" "w \<le> 8"
    and n: "unat n \<le> cell_limit"
  shows "P k h \<Longrightarrow> k * w \<le> unat n \<Longrightarrow>
     \<exists>h'. vec_loop w fadd a b c n (of_nat (k * w)) \<lparr>heap = h, trace = t\<rparr> =
            Some (Inr (of_nat (unat n div w * w),
                       \<lparr>heap = h', trace = t @ vec_events w a b c k (unat n div w)\<rparr>))
          \<and> P (unat n div w) h'"
proof (induction "unat n div w - k" arbitrary: k h t)
  case 0
  from "0.prems"(2) w(1) have "k \<le> unat n div w"
    by (simp add: less_eq_div_iff_mult_less_eq)
  with "0.hyps" have k: "k = unat n div w" by simp
  have "\<not> k * w + w \<le> unat n"
  proof
    assume "k * w + w \<le> unat n"
    then have "Suc k * w \<le> unat n" by simp
    then have "Suc k \<le> unat n div w"
      using w(1) by (simp only: less_eq_div_iff_mult_less_eq)
    with k show False by simp
  qed
  then have "\<not> (of_nat (k * w) :: size_t) + of_nat w \<le> n"
    using chunk_guard [OF "0.prems"(2) n w(2)] by simp
  then have "vec_loop w fadd a b c n (of_nat (k * w)) \<lparr>heap = h, trace = t\<rparr> =
      Some (Inr (of_nat (k * w), \<lparr>heap = h, trace = t\<rparr>))"
    by (subst vec_loop.simps) simp
  with k "0.prems"(1) show ?case
    by (simp add: vec_events_def)
next
  case (Suc d)
  from Suc.hyps(2) have lt: "k < unat n div w" by simp
  then have "Suc k \<le> unat n div w" by simp
  then have "Suc k * w \<le> unat n"
    using w(1) by (simp only: less_eq_div_iff_mult_less_eq)
  then have fits: "k * w + w \<le> unat n" by simp
  then have guard: "(of_nat (k * w) :: size_t) + of_nat w \<le> n"
    using chunk_guard [OF Suc.prems(2) n w(2)] by simp
  from step [OF fits Suc.prems(1), of t] obtain h1 where
    s1: "vec_step w fadd a b c (of_nat (k * w)) \<lparr>heap = h, trace = t\<rparr> =
             Inr \<lparr>heap = h1, trace = t @ [Load a (k * w) w, Load b (k * w) w, Store c (k * w) w]\<rparr>"
    and p1: "P (Suc k) h1" by blast
  have d: "d = unat n div w - Suc k" using Suc.hyps(2) by simp
  have le: "Suc k * w \<le> unat n" using fits by simp
  from Suc.hyps(1) [OF d p1 le, of "t @ [Load a (k * w) w, Load b (k * w) w, Store c (k * w) w]"]
  obtain h2 where
    s2: "vec_loop w fadd a b c n (of_nat (Suc k * w))
           \<lparr>heap = h1, trace = t @ [Load a (k * w) w, Load b (k * w) w, Store c (k * w) w]\<rparr> =
         Some (Inr (of_nat (unat n div w * w),
           \<lparr>heap = h2, trace = (t @ [Load a (k * w) w, Load b (k * w) w, Store c (k * w) w])
              @ vec_events w a b c (Suc k) (unat n div w)\<rparr>))"
    and p2: "P (unat n div w) h2" by blast
  have idx: "(of_nat (k * w) :: size_t) + of_nat w = of_nat (Suc k * w)"
    by (simp add: add.commute)
  have "vec_loop w fadd a b c n (of_nat (k * w)) \<lparr>heap = h, trace = t\<rparr> =
      vec_loop w fadd a b c n (of_nat (Suc k * w))
           \<lparr>heap = h1, trace = t @ [Load a (k * w) w, Load b (k * w) w, Store c (k * w) w]\<rparr>"
    using guard by (subst vec_loop.simps) (simp only: if_True s1 sum.case idx)
  with s2 p2 vec_events_step [OF lt, of a w b c] show ?case
    by (metis append.assoc)
qed

subsection \<open>The scalar loop\<close>

lemma scalar_step_ok:
  assumes "h (a + unat i) \<noteq> None" and "h (b + unat i) \<noteq> None" and "h (c + unat i) \<noteq> None"
  shows "scalar_step fadd a b c i \<lparr>heap = h, trace = t\<rparr> =
    Inr \<lparr>heap = h(c + unat i \<mapsto> fadd (the (h (a + unat i))) (the (h (b + unat i)))),
         trace = t @ [Load a (unat i) 1, Load b (unat i) 1, Store c (unat i) 1]\<rparr>"
  using assms by (auto simp: scalar_step_def)

lemma scalar_events_step:
  "k < l \<Longrightarrow> [Load a k 1, Load b k 1, Store c k 1] @ scalar_events a b c (Suc k) l
     = scalar_events a b c k l"
  by (simp add: scalar_events_def upt_conv_Cons)

lemma scalar_guard:
  assumes "k \<le> unat n"
  shows "((of_nat k :: size_t) < n) = (k < unat n)"
proof -
  have "unat n < 2 ^ 64"
    using unsigned_less [of n, where ?'a = nat] by simp
  with assms have "k < 2 ^ 64" by simp
  then have "unat (of_nat k :: size_t) = k"
    by (rule unat_index)
  then show ?thesis
    by (simp add: word_less_nat_alt)
qed

lemma scalar_loop_rule:
  fixes P :: "nat \<Rightarrow> (nat \<rightharpoonup> 'f) \<Rightarrow> bool"
  assumes step: "\<And>k h t. k < unat n \<Longrightarrow> P k h \<Longrightarrow>
      \<exists>h'. scalar_step fadd a b c (of_nat k) \<lparr>heap = h, trace = t\<rparr> =
             Inr \<lparr>heap = h', trace = t @ [Load a k 1, Load b k 1, Store c k 1]\<rparr>
           \<and> P (Suc k) h'"
  shows "P k h \<Longrightarrow> k \<le> unat n \<Longrightarrow>
     \<exists>h'. scalar_loop fadd a b c n (of_nat k) \<lparr>heap = h, trace = t\<rparr> =
            Inr \<lparr>heap = h', trace = t @ scalar_events a b c k (unat n)\<rparr>
          \<and> P (unat n) h'"
proof (induction "unat n - k" arbitrary: k h t)
  case 0
  then have k: "k = unat n" by simp
  then have "\<not> (of_nat k :: size_t) < n"
    using scalar_guard [OF "0.prems"(2)] by simp
  then have "scalar_loop fadd a b c n (of_nat k) \<lparr>heap = h, trace = t\<rparr> = Inr \<lparr>heap = h, trace = t\<rparr>"
    by (subst scalar_loop.simps) simp
  with k "0.prems"(1) show ?case
    by (simp add: scalar_events_def)
next
  case (Suc d)
  from Suc.hyps(2) have lt: "k < unat n" by simp
  then have guard: "(of_nat k :: size_t) < n"
    using scalar_guard [OF Suc.prems(2)] by simp
  from step [OF lt Suc.prems(1), of t] obtain h1 where
    s1: "scalar_step fadd a b c (of_nat k) \<lparr>heap = h, trace = t\<rparr> =
             Inr \<lparr>heap = h1, trace = t @ [Load a k 1, Load b k 1, Store c k 1]\<rparr>"
    and p1: "P (Suc k) h1" by blast
  have d: "d = unat n - Suc k" using Suc.hyps(2) by simp
  have le: "Suc k \<le> unat n" using lt by simp
  from Suc.hyps(1) [OF d p1 le, of "t @ [Load a k 1, Load b k 1, Store c k 1]"]
  obtain h2 where
    s2: "scalar_loop fadd a b c n (of_nat (Suc k))
           \<lparr>heap = h1, trace = t @ [Load a k 1, Load b k 1, Store c k 1]\<rparr> =
         Inr \<lparr>heap = h2, trace = (t @ [Load a k 1, Load b k 1, Store c k 1])
              @ scalar_events a b c (Suc k) (unat n)\<rparr>"
    and p2: "P (unat n) h2" by blast
  have idx: "(of_nat k :: size_t) + 1 = of_nat (Suc k)"
    by simp
  have "scalar_loop fadd a b c n (of_nat k) \<lparr>heap = h, trace = t\<rparr> =
      scalar_loop fadd a b c n (of_nat (Suc k))
           \<lparr>heap = h1, trace = t @ [Load a k 1, Load b k 1, Store c k 1]\<rparr>"
    using guard by (subst scalar_loop.simps) (simp only: if_True s1 sum.case idx)
  with s2 p2 scalar_events_step [OF lt, of a b c] show ?case
    by (metis append.assoc)
qed

subsection \<open>A whole call, for any invariant of the store\<close>

lemma blockadd_one:
  "blockadd fadd h a b c k 1 = h(c + k \<mapsto> fadd (the (h (a + k))) (the (h (b + k))))"
  by (rule ext) (auto simp: blockadd_def)

lemma scalar_run:
  fixes P :: "nat \<Rightarrow> (nat \<rightharpoonup> 'f) \<Rightarrow> bool"
  assumes alloc: "\<And>k h j. P k h \<Longrightarrow> j < unat n \<Longrightarrow>
        h (a + j) \<noteq> None \<and> h (b + j) \<noteq> None \<and> h (c + j) \<noteq> None"
    and closed: "\<And>k h w. P k h \<Longrightarrow> 0 < w \<Longrightarrow> k + w \<le> unat n \<Longrightarrow>
        P (k + w) (blockadd fadd h a b c k w)"
    and init: "P k h" and k: "k \<le> unat n"
  shows "\<exists>h'. scalar_loop fadd a b c n (of_nat k) \<lparr>heap = h, trace = t\<rparr> =
            Inr \<lparr>heap = h', trace = t @ scalar_events a b c k (unat n)\<rparr>
          \<and> P (unat n) h'"
proof (rule scalar_loop_rule [where P = P, OF _ init k])
  fix j h1 and t1 :: "event list"
  assume j: "j < unat n" and p: "P j h1"
  have "unat n < 2 ^ 64"
    using unsigned_less [of n, where ?'a = nat] by simp
  with j have u: "unat (of_nat j :: size_t) = j"
    by (simp add: unat_index)
  from alloc [OF p j] have al: "h1 (a + j) \<noteq> None" "h1 (b + j) \<noteq> None" "h1 (c + j) \<noteq> None"
    by simp_all
  have al': "h1 (a + unat (of_nat j :: size_t)) \<noteq> None" "h1 (b + unat (of_nat j :: size_t)) \<noteq> None"
    "h1 (c + unat (of_nat j :: size_t)) \<noteq> None"
    using al by (simp_all add: u)
  have "scalar_step fadd a b c (of_nat j) \<lparr>heap = h1, trace = t1\<rparr> =
      Inr \<lparr>heap = h1(c + j \<mapsto> fadd (the (h1 (a + j))) (the (h1 (b + j)))),
           trace = t1 @ [Load a j 1, Load b j 1, Store c j 1]\<rparr>"
    using scalar_step_ok [OF al', where fadd = fadd and t = t1] by (simp only: u)
  then have "scalar_step fadd a b c (of_nat j) \<lparr>heap = h1, trace = t1\<rparr> =
      Inr \<lparr>heap = blockadd fadd h1 a b c j 1, trace = t1 @ [Load a j 1, Load b j 1, Store c j 1]\<rparr>"
    by (simp only: blockadd_one)
  moreover have "P (Suc j) (blockadd fadd h1 a b c j 1)"
    using closed [OF p, of 1] j by simp
  ultimately show "\<exists>h'. scalar_step fadd a b c (of_nat j) \<lparr>heap = h1, trace = t1\<rparr> =
             Inr \<lparr>heap = h', trace = t1 @ [Load a j 1, Load b j 1, Store c j 1]\<rparr>
           \<and> P (Suc j) h'"
    by blast
qed

lemma vec_run:
  fixes P :: "nat \<Rightarrow> (nat \<rightharpoonup> 'f) \<Rightarrow> bool"
  assumes alloc: "\<And>k h j. P k h \<Longrightarrow> j < unat n \<Longrightarrow>
        h (a + j) \<noteq> None \<and> h (b + j) \<noteq> None \<and> h (c + j) \<noteq> None"
    and closed: "\<And>k h w. P k h \<Longrightarrow> 0 < w \<Longrightarrow> k + w \<le> unat n \<Longrightarrow>
        P (k + w) (blockadd fadd h a b c k w)"
    and n: "unat n \<le> cell_limit"
    and w: "0 < w" "w \<le> 8"
    and init: "P 0 h"
  shows "\<exists>h'. vec_loop w fadd a b c n 0 \<lparr>heap = h, trace = t\<rparr> =
            Some (Inr (of_nat (unat n div w * w),
                       \<lparr>heap = h', trace = t @ vec_events w a b c 0 (unat n div w)\<rparr>))
          \<and> P (unat n div w * w) h'"
proof -
  have step: "\<exists>h'. vec_step w fadd a b c (of_nat (k * w)) \<lparr>heap = h1, trace = t1\<rparr> =
             Inr \<lparr>heap = h', trace = t1 @ [Load a (k * w) w, Load b (k * w) w, Store c (k * w) w]\<rparr>
           \<and> P (Suc k * w) h'"
    if fits: "k * w + w \<le> unat n" and p: "P (k * w) h1" for k h1 and t1 :: "event list"
  proof -
    have "unat n < 2 ^ 64"
      using unsigned_less [of n, where ?'a = nat] by simp
    with fits have "k * w < 2 ^ 64" by arith
    then have u: "unat (of_nat (k * w) :: size_t) = k * w"
      by (rule unat_index)
    have al: "h1 (a + (k * w + j)) \<noteq> None \<and> h1 (b + (k * w + j)) \<noteq> None
        \<and> h1 (c + (k * w + j)) \<noteq> None" if "j < w" for j
      using alloc [OF p, of "k * w + j"] that fits by simp
    have al': "\<forall>j<w. h1 (a + unat (of_nat (k * w) :: size_t) + j) \<noteq> None"
      "\<forall>j<w. h1 (b + unat (of_nat (k * w) :: size_t) + j) \<noteq> None"
      "\<forall>j<w. h1 (c + unat (of_nat (k * w) :: size_t) + j) \<noteq> None"
      unfolding u add.assoc using al by blast+
    have "vec_step w fadd a b c (of_nat (k * w)) \<lparr>heap = h1, trace = t1\<rparr> =
        Inr \<lparr>heap = blockadd fadd h1 a b c (k * w) w,
             trace = t1 @ [Load a (k * w) w, Load b (k * w) w, Store c (k * w) w]\<rparr>"
      using vec_step_ok [OF al', where fadd = fadd and t = t1]
      by (simp only: u blockadd_def)
    moreover have "P (Suc k * w) (blockadd fadd h1 a b c (k * w) w)"
      using closed [OF p w(1) fits] by (simp add: add.commute)
    ultimately show ?thesis by blast
  qed
  have "\<exists>h'. vec_loop w fadd a b c n (of_nat (0 * w)) \<lparr>heap = h, trace = t\<rparr> =
            Some (Inr (of_nat (unat n div w * w),
                       \<lparr>heap = h', trace = t @ vec_events w a b c 0 (unat n div w)\<rparr>))
          \<and> P (unat n div w * w) h'"
    by (rule vec_loop_rule [where P = "\<lambda>k. P (k * w)", OF step w n]) (simp_all add: init)
  then show ?thesis by simp
qed

lemma add_arrays_simd_rule:
  fixes P :: "nat \<Rightarrow> (nat \<rightharpoonup> 'f) \<Rightarrow> bool"
  assumes alloc: "\<And>k h j. P k h \<Longrightarrow> j < unat n \<Longrightarrow>
        h (a + j) \<noteq> None \<and> h (b + j) \<noteq> None \<and> h (c + j) \<noteq> None"
    and closed: "\<And>k h w. P k h \<Longrightarrow> 0 < w \<Longrightarrow> k + w \<le> unat n \<Longrightarrow>
        P (k + w) (blockadd fadd h a b c k w)"
    and n: "unat n \<le> cell_limit"
    and comp: "compiles env"
    and init: "P 0 (heap st)"
  shows "\<exists>h'. add_arrays_simd env fadd a b c n st =
            Some (Inr \<lparr>heap = h', trace = trace st @ Out (diagnostic env) # accesses env a b c (unat n)\<rparr>)
          \<and> P (unat n) h'"
proof -
  have chunked: "\<exists>h'. (case vec_loop w fadd a b c n 0 (puts s st) of
           None \<Rightarrow> None
         | Some (Inl e) \<Rightarrow> Some (Inl e)
         | Some (Inr (i, st')) \<Rightarrow> Some (scalar_loop fadd a b c n i st')) =
       Some (Inr \<lparr>heap = h', trace = trace st @ Out s #
          (vec_events w a b c 0 (unat n div w) @ scalar_events a b c (unat n div w * w) (unat n))\<rparr>)
       \<and> P (unat n) h'"
    if w: "0 < w" "w \<le> 8" for w s
  proof -
    have ps: "puts s st = \<lparr>heap = heap st, trace = trace st @ [Out s]\<rparr>"
      by (simp add: puts_def)
    have "\<exists>h1. vec_loop w fadd a b c n 0 \<lparr>heap = heap st, trace = trace st @ [Out s]\<rparr> =
            Some (Inr (of_nat (unat n div w * w),
                       \<lparr>heap = h1, trace = (trace st @ [Out s]) @ vec_events w a b c 0 (unat n div w)\<rparr>))
          \<and> P (unat n div w * w) h1"
      by (rule vec_run [where P = P]; fact)
    then obtain h1 where
      v: "vec_loop w fadd a b c n 0 (puts s st) =
            Some (Inr (of_nat (unat n div w * w),
                       \<lparr>heap = h1, trace = (trace st @ [Out s]) @ vec_events w a b c 0 (unat n div w)\<rparr>))"
      and p1: "P (unat n div w * w) h1"
      unfolding ps by blast
    have le: "unat n div w * w \<le> unat n" by simp
    have "\<exists>h2. scalar_loop fadd a b c n (of_nat (unat n div w * w))
           \<lparr>heap = h1, trace = (trace st @ [Out s]) @ vec_events w a b c 0 (unat n div w)\<rparr> =
          Inr \<lparr>heap = h2, trace = ((trace st @ [Out s]) @ vec_events w a b c 0 (unat n div w))
             @ scalar_events a b c (unat n div w * w) (unat n)\<rparr>
          \<and> P (unat n) h2"
      by (rule scalar_run [where P = P]; fact)
    then obtain h2 where
      s: "scalar_loop fadd a b c n (of_nat (unat n div w * w))
           \<lparr>heap = h1, trace = (trace st @ [Out s]) @ vec_events w a b c 0 (unat n div w)\<rparr> =
          Inr \<lparr>heap = h2, trace = ((trace st @ [Out s]) @ vec_events w a b c 0 (unat n div w))
             @ scalar_events a b c (unat n div w * w) (unat n)\<rparr>"
      and p2: "P (unat n) h2" by blast
    show ?thesis
      using p2 s by (auto simp: v simp del: of_nat_mult)
  qed
  show ?thesis
  proof (cases "defined_AVX env")
    case True
    with chunked [of 8 "''AVX is detected.''"] show ?thesis
      by (simp add: add_arrays_simd_def diagnostic_def accesses_def)
  next
    case avx: False
    show ?thesis
    proof (cases "defined_SSE2 env")
      case True
      with avx comp obtain s where s: "macro_SSE2 env = Some s"
        by (auto simp: compiles_def)
      with avx True chunked [of 4 "s @ ''is detected.''"] show ?thesis
        by (simp add: add_arrays_simd_def diagnostic_def accesses_def)
    next
      case False
      have ps: "puts ''no SIMD extension is detected.'' st
          = \<lparr>heap = heap st, trace = trace st @ [Out ''no SIMD extension is detected.'']\<rparr>"
        by (simp add: puts_def)
      have "\<exists>h2. scalar_loop fadd a b c n (of_nat 0)
            \<lparr>heap = heap st, trace = trace st @ [Out ''no SIMD extension is detected.'']\<rparr> =
          Inr \<lparr>heap = h2, trace = (trace st @ [Out ''no SIMD extension is detected.''])
             @ scalar_events a b c 0 (unat n)\<rparr> \<and> P (unat n) h2"
        by (rule scalar_run [where P = P]; (fact | simp))
      then obtain h2 where
        "scalar_loop fadd a b c n 0 \<lparr>heap = heap st, trace = trace st @ [Out ''no SIMD extension is detected.'']\<rparr> =
          Inr \<lparr>heap = h2, trace = (trace st @ [Out ''no SIMD extension is detected.''])
             @ scalar_events a b c 0 (unat n)\<rparr>"
        and "P (unat n) h2" by auto
      with avx False show ?thesis
        by (simp add: add_arrays_simd_def diagnostic_def accesses_def ps)
    qed
  qed
qed

subsection \<open>A call keeps the allocation and computes the sums\<close>

lemma run_alloc:
  assumes comp: "compiles env" and n: "unat n \<le> cell_limit"
    and a: "\<forall>i<unat n. heap st (a + i) \<noteq> None"
    and b: "\<forall>i<unat n. heap st (b + i) \<noteq> None"
    and c: "\<forall>i<unat n. heap st (c + i) \<noteq> None"
  shows "\<exists>h'. add_arrays_simd env fadd a b c n st =
            Some (Inr \<lparr>heap = h', trace = trace st @ Out (diagnostic env) # accesses env a b c (unat n)\<rparr>)
          \<and> (\<forall>q. (h' q = None) = (heap st q = None))"
proof (rule add_arrays_simd_rule [where P = "\<lambda>k h. \<forall>q. (h q = None) = (heap st q = None)", OF _ _ n comp])
  fix k j :: nat and h :: "nat \<rightharpoonup> 'a"
  assume "\<forall>q. (h q = None) = (heap st q = None)" and "j < unat n"
  then show "h (a + j) \<noteq> None \<and> h (b + j) \<noteq> None \<and> h (c + j) \<noteq> None"
    using a b c by simp
next
  fix k w :: nat and h :: "nat \<rightharpoonup> 'a"
  assume h: "\<forall>q. (h q = None) = (heap st q = None)" and "0 < w" and kw: "k + w \<le> unat n"
  show "\<forall>q. (blockadd fadd h a b c k w q = None) = (heap st q = None)"
  proof
    fix q
    show "(blockadd fadd h a b c k w q = None) = (heap st q = None)"
    proof (cases "c + k \<le> q \<and> q < c + k + w")
      case True
      then have "q - c < unat n" and "q = c + (q - c)"
        using kw by arith+
      then have "heap st q \<noteq> None"
        using c by metis
      with True show ?thesis
        by (simp add: blockadd_def)
    next
      case False
      then have "blockadd fadd h a b c k w q = h q"
        by (auto simp: blockadd_def)
      then show ?thesis
        using h by simp
    qed
  qed
next
  show "\<forall>q. (heap st q = None) = (heap st q = None)" by simp
qed

lemma summed_outside:
  assumes "disjoint c p n" and "j < unat n" and "k \<le> unat n"
  shows "summed fadd m a b c k (p + j) = m (p + j)"
  using assms by (auto simp: summed_def disjoint_def)

lemma run_sum:
  assumes comp: "compiles env" and n: "unat n \<le> cell_limit"
    and a: "\<forall>i<unat n. heap st (a + i) \<noteq> None"
    and b: "\<forall>i<unat n. heap st (b + i) \<noteq> None"
    and c: "\<forall>i<unat n. heap st (c + i) \<noteq> None"
    and ca: "disjoint c a n" and cb: "disjoint c b n"
  shows "add_arrays_simd env fadd a b c n st =
            Some (Inr \<lparr>heap = summed fadd (heap st) a b c (unat n),
                       trace = trace st @ Out (diagnostic env) # accesses env a b c (unat n)\<rparr>)"
proof -
  let ?P = "\<lambda>k h. k \<le> unat n \<and> h = summed fadd (heap st) a b c k"
  have "\<exists>h'. add_arrays_simd env fadd a b c n st =
            Some (Inr \<lparr>heap = h', trace = trace st @ Out (diagnostic env) # accesses env a b c (unat n)\<rparr>)
          \<and> ?P (unat n) h'"
  proof (rule add_arrays_simd_rule [where P = ?P, OF _ _ n comp])
    fix k j :: nat and h :: "nat \<rightharpoonup> 'a"
    assume p: "k \<le> unat n \<and> h = summed fadd (heap st) a b c k" and j: "j < unat n"
    have "h (a + j) = heap st (a + j)" "h (b + j) = heap st (b + j)"
      using p summed_outside [OF ca j, of k] summed_outside [OF cb j, of k] by simp_all
    moreover have "h (c + j) \<noteq> None"
      using p c j by (simp add: summed_def)
    ultimately show "h (a + j) \<noteq> None \<and> h (b + j) \<noteq> None \<and> h (c + j) \<noteq> None"
      using a b j by simp
  next
    fix k w :: nat and h :: "nat \<rightharpoonup> 'a"
    assume p: "k \<le> unat n \<and> h = summed fadd (heap st) a b c k" and "0 < w" and kw: "k + w \<le> unat n"
    have "blockadd fadd h a b c k w q = summed fadd (heap st) a b c (k + w) q" for q
    proof (cases "c + k \<le> q \<and> q < c + k + w")
      case True
      then have j: "q - c < unat n" and e: "a + k + (q - (c + k)) = a + (q - c)"
          "b + k + (q - (c + k)) = b + (q - c)"
        using kw by arith+
      have "h (a + (q - c)) = heap st (a + (q - c))" "h (b + (q - c)) = heap st (b + (q - c))"
        using p summed_outside [OF ca j, of k] summed_outside [OF cb j, of k] by simp_all
      with True e show ?thesis
        by (simp add: blockadd_def summed_def)
    next
      case False
      with p show ?thesis
        by (auto simp: blockadd_def summed_def)
    qed
    then show "k + w \<le> unat n \<and> blockadd fadd h a b c k w = summed fadd (heap st) a b c (k + w)"
      using kw by auto
  next
    have "heap st = summed fadd (heap st) a b c 0"
      by (rule ext) (auto simp: summed_def)
    then show "0 \<le> unat n \<and> heap st = summed fadd (heap st) a b c 0"
      by simp
  qed
  then show ?thesis by auto
qed

lemma buffer_cells: "buffer m p n \<Longrightarrow> \<forall>i<unat n. m (p + i) \<noteq> None"
  by (simp add: buffer_def)

lemma demo_hyps:
  "buffer (heap demo) 0 9" "buffer (heap demo) 9 9" "buffer (heap demo) 18 9"
  "disjoint 18 0 9" "disjoint 18 9 9"
  "compiles wide_build" "compiles narrow_build" "compiles scalar_build"
  by (simp_all add: compiles_def wide_build_def narrow_build_def scalar_build_def buffer_def
      cell_limit_def disjoint_def demo_def)

lemma vec_events_in_bounds:
  assumes "l * w \<le> n"
  shows "list_all (in_bounds a b c n) (vec_events w a b c k l)"
proof -
  have "j * w + w \<le> n" if "j < l" for j
  proof -
    from that have "Suc j \<le> l" by simp
    then have "Suc j * w \<le> l * w" by (rule mult_le_mono1)
    with assms show ?thesis by simp
  qed
  then show ?thesis
    by (simp add: vec_events_def list_all_iff)
qed

lemma scalar_events_in_bounds:
  assumes "hi \<le> n"
  shows "list_all (in_bounds a b c n) (scalar_events a b c lo hi)"
  using assms by (auto simp: scalar_events_def list_all_iff)

lemma accesses_in_bounds: "list_all (in_bounds a b c n) (accesses env a b c n)"
  by (simp add: accesses_def vec_events_in_bounds scalar_events_in_bounds)

subsection \<open>initialize\_arrays\<close>

lemma init_step_ok:
  assumes "h (a + unat i) \<noteq> None" and "h (b + unat i) \<noteq> None"
  shows "init_step to_float a b n i \<lparr>heap = h, trace = t\<rparr> =
    Inr \<lparr>heap = h(a + unat i \<mapsto> to_float i, b + unat i \<mapsto> to_float (n - i)),
         trace = t @ [Store a (unat i) 1, Store b (unat i) 1]\<rparr>"
  using assms by (auto simp: init_step_def Let_def)

lemma init_events_step:
  "k < l \<Longrightarrow> [Store a k 1, Store b k 1] @ init_events a b (Suc k) l = init_events a b k l"
  by (simp add: init_events_def upt_conv_Cons)

lemma init_loop_rule:
  fixes P :: "nat \<Rightarrow> (nat \<rightharpoonup> 'f) \<Rightarrow> bool"
  assumes alloc: "\<And>k h j. P k h \<Longrightarrow> j < unat n \<Longrightarrow> h (a + j) \<noteq> None \<and> h (b + j) \<noteq> None"
    and closed: "\<And>k h. P k h \<Longrightarrow> k < unat n \<Longrightarrow>
        P (Suc k) (h(a + k \<mapsto> to_float (of_nat k), b + k \<mapsto> to_float (n - of_nat k)))"
  shows "P k h \<Longrightarrow> k \<le> unat n \<Longrightarrow>
     \<exists>h'. init_loop to_float a b n (of_nat k) \<lparr>heap = h, trace = t\<rparr> =
            Inr \<lparr>heap = h', trace = t @ init_events a b k (unat n)\<rparr>
          \<and> P (unat n) h'"
proof (induction "unat n - k" arbitrary: k h t)
  case 0
  then have k: "k = unat n" by simp
  then have "\<not> (of_nat k :: size_t) < n"
    using scalar_guard [OF "0.prems"(2)] by simp
  then have "init_loop to_float a b n (of_nat k) \<lparr>heap = h, trace = t\<rparr> = Inr \<lparr>heap = h, trace = t\<rparr>"
    by (subst init_loop.simps) simp
  with k "0.prems"(1) show ?case
    by (simp add: init_events_def)
next
  case (Suc d)
  from Suc.hyps(2) have lt: "k < unat n" by simp
  then have guard: "(of_nat k :: size_t) < n"
    using scalar_guard [OF Suc.prems(2)] by simp
  have "unat n < 2 ^ 64"
    using unsigned_less [of n, where ?'a = nat] by simp
  with lt have u: "unat (of_nat k :: size_t) = k"
    by (simp add: unat_index)
  let ?h1 = "h(a + k \<mapsto> to_float (of_nat k), b + k \<mapsto> to_float (n - of_nat k))"
  let ?t1 = "t @ [Store a k 1, Store b k 1]"
  from alloc [OF Suc.prems(1) lt]
  have al: "h (a + unat (of_nat k :: size_t)) \<noteq> None" "h (b + unat (of_nat k :: size_t)) \<noteq> None"
    by (simp_all add: u)
  have s1: "init_step to_float a b n (of_nat k) \<lparr>heap = h, trace = t\<rparr> =
      Inr \<lparr>heap = ?h1, trace = ?t1\<rparr>"
    using init_step_ok [OF al, where to_float = to_float and n = n and t = t] by (simp only: u)
  have p1: "P (Suc k) ?h1"
    by (rule closed [OF Suc.prems(1) lt])
  have d: "d = unat n - Suc k" using Suc.hyps(2) by simp
  have le: "Suc k \<le> unat n" using lt by simp
  from Suc.hyps(1) [OF d p1 le, of ?t1]
  obtain h2 where
    s2: "init_loop to_float a b n (of_nat (Suc k)) \<lparr>heap = ?h1, trace = ?t1\<rparr> =
         Inr \<lparr>heap = h2, trace = ?t1 @ init_events a b (Suc k) (unat n)\<rparr>"
    and p2: "P (unat n) h2" by blast
  have idx: "(of_nat k :: size_t) + 1 = of_nat (Suc k)"
    by simp
  have "init_loop to_float a b n (of_nat k) \<lparr>heap = h, trace = t\<rparr> =
      init_loop to_float a b n (of_nat (Suc k)) \<lparr>heap = ?h1, trace = ?t1\<rparr>"
    using guard by (subst init_loop.simps) (simp only: if_True s1 sum.case idx)
  with s2 p2 init_events_step [OF lt, of a b] show ?case
    by (metis append.assoc)
qed

lemma init_alloc:
  assumes a: "\<forall>i<unat n. heap st (a + i) \<noteq> None" and b: "\<forall>i<unat n. heap st (b + i) \<noteq> None"
  shows "\<exists>h'. initialize_arrays to_float a b n st =
            Inr \<lparr>heap = h', trace = trace st @ init_events a b 0 (unat n)\<rparr>
          \<and> (\<forall>q. (h' q = None) = (heap st q = None))"
proof -
  have "\<exists>h'. init_loop to_float a b n (of_nat 0) \<lparr>heap = heap st, trace = trace st\<rparr> =
            Inr \<lparr>heap = h', trace = trace st @ init_events a b 0 (unat n)\<rparr>
          \<and> (\<forall>q. (h' q = None) = (heap st q = None))"
  proof (rule init_loop_rule [where P = "\<lambda>k h. \<forall>q. (h q = None) = (heap st q = None)"])
    fix k j :: nat and h :: "nat \<rightharpoonup> 'a"
    assume "\<forall>q. (h q = None) = (heap st q = None)" and "j < unat n"
    then show "h (a + j) \<noteq> None \<and> h (b + j) \<noteq> None"
      using a b by simp
  next
    fix k :: nat and h :: "nat \<rightharpoonup> 'a"
    assume "\<forall>q. (h q = None) = (heap st q = None)" and "k < unat n"
    then show "\<forall>q. ((h(a + k \<mapsto> to_float (of_nat k), b + k \<mapsto> to_float (n - of_nat k))) q = None)
        = (heap st q = None)"
      using a b by auto
  qed simp_all
  moreover have "\<lparr>heap = heap st, trace = trace st\<rparr> = st"
    by simp
  ultimately show ?thesis
    by (simp add: initialize_arrays_def)
qed

lemma init_values:
  assumes a: "\<forall>i<unat n. heap st (a + i) \<noteq> None" and b: "\<forall>i<unat n. heap st (b + i) \<noteq> None"
    and ab: "disjoint a b n"
  shows "initialize_arrays to_float a b n st =
            Inr \<lparr>heap = initialized to_float (heap st) a b n (unat n),
                 trace = trace st @ init_events a b 0 (unat n)\<rparr>"
proof -
  let ?P = "\<lambda>k h. k \<le> unat n \<and> h = initialized to_float (heap st) a b n k"
  have "\<exists>h'. init_loop to_float a b n (of_nat 0) \<lparr>heap = heap st, trace = trace st\<rparr> =
            Inr \<lparr>heap = h', trace = trace st @ init_events a b 0 (unat n)\<rparr>
          \<and> ?P (unat n) h'"
  proof (rule init_loop_rule [where P = ?P])
    fix k j :: nat and h :: "nat \<rightharpoonup> 'a"
    assume "k \<le> unat n \<and> h = initialized to_float (heap st) a b n k" and "j < unat n"
    then show "h (a + j) \<noteq> None \<and> h (b + j) \<noteq> None"
      using a b by (simp add: initialized_def)
  next
    fix k :: nat and h :: "nat \<rightharpoonup> 'a"
    assume p: "k \<le> unat n \<and> h = initialized to_float (heap st) a b n k" and k: "k < unat n"
    have "(h(a + k \<mapsto> to_float (of_nat k), b + k \<mapsto> to_float (n - of_nat k))) q
        = initialized to_float (heap st) a b n (Suc k) q" for q
      using p k ab by (auto simp: initialized_def disjoint_def)
    then show "Suc k \<le> unat n \<and> h(a + k \<mapsto> to_float (of_nat k), b + k \<mapsto> to_float (n - of_nat k))
        = initialized to_float (heap st) a b n (Suc k)"
      using k by auto
  next
    have "heap st = initialized to_float (heap st) a b n 0"
      by (rule ext) (auto simp: initialized_def)
    then show "0 \<le> unat n \<and> heap st = initialized to_float (heap st) a b n 0"
      by simp
  qed simp
  moreover have "\<lparr>heap = heap st, trace = trace st\<rparr> = st"
    by simp
  ultimately show ?thesis
    by (auto simp: initialize_arrays_def)
qed

subsection \<open>Small integers are exact in binary32\<close>

lemma bitlen_bound: "k < 2 ^ m \<Longrightarrow> bitlen k \<le> m"
proof (induction m arbitrary: k)
  case 0
  then show ?case by (simp add: bitlen.simps)
next
  case (Suc m)
  show ?case
  proof (cases "k = 0")
    case True
    then show ?thesis by (simp add: bitlen.simps)
  next
    case False
    from Suc.prems have "k div 2 < 2 ^ m" by simp
    then have "bitlen (k div 2) \<le> m" by (rule Suc.IH)
    with False show ?thesis
      by (subst bitlen.simps) simp
  qed
qed

lemma scaled_bound: "j < 2 ^ 24 \<Longrightarrow> j * 2 ^ e < 2 ^ (24 + e)" for j e :: nat
  by (simp add: power_add)

lemma rne24_scaled:
  assumes "j < 2 ^ 24"
  shows "rne24 (j * 2 ^ e) = j * 2 ^ e"
proof -
  let ?k = "j * 2 ^ e"
  let ?sh = "bitlen ?k - 24"
  have "bitlen ?k \<le> 24 + e"
    using scaled_bound [OF assms] by (rule bitlen_bound)
  then have sh: "?sh \<le> e" by simp
  then have "(2::nat) ^ ?sh dvd 2 ^ e"
    by (rule le_imp_power_dvd)
  then have dvd: "2 ^ ?sh dvd ?k"
    by (rule dvd_mult)
  then have r: "?k mod 2 ^ ?sh = 0"
    by (rule dvd_imp_mod_0)
  from dvd have q: "?k div 2 ^ ?sh * 2 ^ ?sh = ?k"
    by (rule dvd_div_mult_self)
  show ?thesis
    unfolding rne24_def Let_def r q by simp
qed

lemma pack_exact:
  assumes "j < 2 ^ 24"
  shows "pack s (j * 2 ^ 149) = Finite s (j * 2 ^ 149)"
proof -
  have "j * 2 ^ 149 < 2 ^ (24 + 149)"
    using assms by (rule scaled_bound)
  also have "(2::nat) ^ (24 + 149) \<le> 2 ^ 277"
    by (rule power_increasing) simp_all
  finally have "\<not> 2 ^ 277 \<le> j * 2 ^ 149"
    by (simp only: not_le)
  then show ?thesis
    unfolding pack_def Let_def rne24_scaled [OF assms] by (simp only: if_False)
qed

lemma f32_of_size_exact: "unat i < 2 ^ 24 \<Longrightarrow> f32_of_size i = Finite False (unat i * 2 ^ 149)"
  unfolding f32_of_size_def by (rule pack_exact)

lemma f32_add_exact:
  assumes "j + k < 2 ^ 24"
  shows "f32_add (Finite False (j * 2 ^ 149)) (Finite False (k * 2 ^ 149)) = Finite False ((j + k) * 2 ^ 149)"
proof -
  have "f32_add (Finite False (j * 2 ^ 149)) (Finite False (k * 2 ^ 149))
      = pack False (j * 2 ^ 149 + k * 2 ^ 149)"
    by (simp only: f32_add.simps simp_thms if_True)
  also have "j * 2 ^ 149 + k * 2 ^ 149 = (j + k) * 2 ^ 149"
    by (simp only: distrib_right)
  also have "pack False ((j + k) * 2 ^ 149) = Finite False ((j + k) * 2 ^ 149)"
    using assms by (rule pack_exact)
  finally show ?thesis .
qed

lemma sum_is_1024:
  assumes "i < 1024"
  shows "f32_add (f32_of_size (of_nat i)) (f32_of_size (1024 - of_nat i)) = Finite False (1024 * 2 ^ 149)"
proof -
  have ui: "unat (of_nat i :: size_t) = i"
    using assms by (simp add: unat_index)
  have "(of_nat i :: size_t) \<le> 1024"
    using assms ui by (simp add: word_le_nat_alt)
  then have "unat (1024 - of_nat i :: size_t) = unat (1024 :: size_t) - unat (of_nat i :: size_t)"
    by (rule unat_sub)
  then have ud: "unat (1024 - of_nat i :: size_t) = 1024 - i"
    by (simp add: ui)
  have "unat (of_nat i :: size_t) < 2 ^ 24"
    using assms ui by simp
  then have x: "f32_of_size (of_nat i) = Finite False (i * 2 ^ 149)"
    using f32_of_size_exact [of "of_nat i"] by (simp only: ui)
  have "unat (1024 - of_nat i :: size_t) < 2 ^ 24"
    using ud by simp
  then have y: "f32_of_size (1024 - of_nat i) = Finite False ((1024 - i) * 2 ^ 149)"
    using f32_of_size_exact [of "1024 - of_nat i"] by (simp only: ud)
  have "i + (1024 - i) < 2 ^ 24"
    using assms by simp
  then have "f32_add (Finite False (i * 2 ^ 149)) (Finite False ((1024 - i) * 2 ^ 149))
      = Finite False ((i + (1024 - i)) * 2 ^ 149)"
    by (rule f32_add_exact)
  moreover have "i + (1024 - i) = 1024"
    using assms by simp
  ultimately show ?thesis
    by (simp only: x y)
qed

lemma fmt_1024: "fmt_f (Finite False (1024 * 2 ^ 149)) = ''1024.000000''"
proof -
  have d: "digits 1024 = ''1024''" "digits 0 = ''0''"
    by (simp_all add: digits.simps)
  have r: "replicate 5 (CHR ''0'') = ''00000''"
    by (simp add: numeral_eq_Suc)
  show ?thesis
    by (simp add: fmt_f_def Let_def d r)
qed

subsection \<open>The printing loop and the driver\<close>

lemma print_events_step:
  "k < l \<Longrightarrow> [Load c k 1, Out (''c['' @ digits k @ ''] = '' @ fmt_f (the (h (c + k))))]
      @ print_events h c (Suc k) l = print_events h c k l"
  by (simp add: print_events_def upt_conv_Cons)

lemma print_loop_ok:
  assumes alloc: "\<forall>i<10. h (c + i) \<noteq> None"
  shows "k \<le> 10 \<Longrightarrow> print_loop c (of_nat k) \<lparr>heap = h, trace = t\<rparr> =
            Inr \<lparr>heap = h, trace = t @ print_events h c k 10\<rparr>"
proof (induction "10 - k" arbitrary: k t)
  case 0
  then have k: "k = 10" by simp
  then have "print_loop c (of_nat k) \<lparr>heap = h, trace = t\<rparr> = Inr \<lparr>heap = h, trace = t\<rparr>"
    by (subst print_loop.simps) simp
  with k show ?case
    by (simp add: print_events_def)
next
  case (Suc d)
  from Suc.hyps(2) have lt: "k < 10" by simp
  then have u: "unat (of_nat k :: size_t) = k"
    by (simp add: unat_index)
  then have guard: "(of_nat k :: size_t) < 10"
    using lt by (simp add: word_less_nat_alt)
  from alloc lt obtain x where x: "h (c + k) = Some x" by auto
  let ?t1 = "t @ [Load c k 1, Out (''c['' @ digits k @ ''] = '' @ fmt_f (the (h (c + k))))]"
  have s1: "print_step c (of_nat k) \<lparr>heap = h, trace = t\<rparr> = Inr \<lparr>heap = h, trace = ?t1\<rparr>"
    by (simp add: print_step_def u x)
  have d: "d = 10 - Suc k" using Suc.hyps(2) by simp
  have le: "Suc k \<le> 10" using lt by simp
  have idx: "(of_nat k :: size_t) + 1 = of_nat (Suc k)"
    by simp
  have "print_loop c (of_nat k) \<lparr>heap = h, trace = t\<rparr> =
      print_loop c (of_nat (Suc k)) \<lparr>heap = h, trace = ?t1\<rparr>"
    using guard by (subst print_loop.simps) (simp only: if_True s1 sum.case idx)
  also have "\<dots> = Inr \<lparr>heap = h, trace = ?t1 @ print_events h c (Suc k) 10\<rparr>"
    by (rule Suc.hyps(1) [OF d le])
  finally show ?case
    using print_events_step [OF lt, of c h] by (metis append.assoc)
qed

lemma stdout_of_append: "stdout_of (s @ t) = stdout_of s @ stdout_of t"
  by (simp add: stdout_of_def)

lemma stdout_of_vec_events: "stdout_of (vec_events w a b c k l) = []"
  by (induction l) (simp_all add: vec_events_def stdout_of_def)

lemma stdout_of_scalar_events: "stdout_of (scalar_events a b c lo hi) = []"
  by (induction hi) (simp_all add: scalar_events_def stdout_of_def)

lemma stdout_of_accesses: "stdout_of (accesses env a b c n) = []"
  by (simp add: accesses_def stdout_of_append stdout_of_vec_events stdout_of_scalar_events)

lemma stdout_of_init_events: "stdout_of (init_events a b lo hi) = []"
  by (induction hi) (simp_all add: init_events_def stdout_of_def)

lemma stdout_of_print_events:
  "stdout_of (print_events h c lo hi) =
     map (\<lambda>i. ''c['' @ digits i @ ''] = '' @ fmt_f (the (h (c + i)))) [lo..<hi]"
  by (induction hi) (simp_all add: print_events_def stdout_of_def)

lemma trace_free [simp]: "trace (free p k st) = trace st"
  by (simp add: free_def)

lemma after_mallocs_heap:
  "heap (after_mallocs a b c junk st) =
     (\<lambda>q. if c \<le> q \<and> q < c + 1024 then Some (junk q)
          else if b \<le> q \<and> q < b + 1024 then Some (junk q)
          else if a \<le> q \<and> q < a + 1024 then Some (junk q)
          else heap st q)"
  by (rule ext) (simp add: after_mallocs_def malloc_def)

lemma after_mallocs_trace: "trace (after_mallocs a b c junk st) = trace st"
  by (simp add: after_mallocs_def malloc_def)

lemma after_mallocs_cells:
  "\<forall>i<unat (1024 :: size_t). heap (after_mallocs a b c junk st) (a + i) \<noteq> None"
  "\<forall>i<unat (1024 :: size_t). heap (after_mallocs a b c junk st) (b + i) \<noteq> None"
  "\<forall>i<unat (1024 :: size_t). heap (after_mallocs a b c junk st) (c + i) \<noteq> None"
  by (simp_all add: after_mallocs_heap)

lemma main_unfold:
  assumes "compiles env"
  shows "main env (Some a) (Some b) (Some c) junk st =
     (case initialize_arrays f32_of_size a b 1024 (after_mallocs a b c junk st) of
        Inl e \<Rightarrow> Some (Inl e)
      | Inr st4 \<Rightarrow>
         (case add_arrays_simd env f32_add a b c 1024 st4 of
            None \<Rightarrow> None
          | Some (Inl e) \<Rightarrow> Some (Inl e)
          | Some (Inr st5) \<Rightarrow>
             (case print_loop c 0 st5 of
                Inl e \<Rightarrow> Some (Inl e)
              | Inr st6 \<Rightarrow> Some (Inr (0, free c 1024 (free b 1024 (free a 1024 st6)))))))"
proof -
  have "fst (malloc (Some p) junk bytes s) = Some p" for p bytes and s :: "f32 state"
    by (simp add: malloc_def)
  with assms show ?thesis
    by (simp add: main_def after_mallocs_def case_prod_unfold)
qed

lemma limit_1024: "unat (1024 :: size_t) \<le> cell_limit"
  by (simp add: cell_limit_def)

lemma main_exits_0:
  assumes comp: "compiles env"
  shows "\<exists>st'. main env (Some a) (Some b) (Some c) junk st = Some (Inr (0, st'))"
proof -
  let ?st3 = "after_mallocs a b c junk st"
  from init_alloc [OF after_mallocs_cells(1,2), of f32_of_size a b c junk st]
  obtain h4 where init: "initialize_arrays f32_of_size a b 1024 ?st3 =
      Inr \<lparr>heap = h4, trace = trace ?st3 @ init_events a b 0 (unat (1024 :: size_t))\<rparr>"
    and d4: "\<forall>q. (h4 q = None) = (heap ?st3 q = None)"
    by blast
  let ?st4 = "\<lparr>heap = h4, trace = trace ?st3 @ init_events a b 0 (unat (1024 :: size_t))\<rparr>"
  have cells4: "\<forall>i<unat (1024 :: size_t). heap ?st4 (a + i) \<noteq> None"
    "\<forall>i<unat (1024 :: size_t). heap ?st4 (b + i) \<noteq> None"
    "\<forall>i<unat (1024 :: size_t). heap ?st4 (c + i) \<noteq> None"
    using after_mallocs_cells [of a b c junk st] d4 by simp_all
  from run_alloc [OF comp limit_1024 cells4, of f32_add]
  obtain h5 where add: "add_arrays_simd env f32_add a b c 1024 ?st4 =
      Some (Inr \<lparr>heap = h5, trace = trace ?st4 @ Out (diagnostic env) #
        accesses env a b c (unat (1024 :: size_t))\<rparr>)"
    and d5: "\<forall>q. (h5 q = None) = (heap ?st4 q = None)"
    by blast
  have "\<forall>i<10. h5 (c + i) \<noteq> None"
    using cells4(3) d5 by simp
  from print_loop_ok [OF this, of 0] have pr: "print_loop c 0 \<lparr>heap = h5, trace = t\<rparr> =
      Inr \<lparr>heap = h5, trace = t @ print_events h5 c 0 10\<rparr>" for t
    by simp
  show ?thesis
    using init add by (simp add: main_unfold [OF comp] pr)
qed

lemma ten_lines:
  "map (\<lambda>i. ''c['' @ digits i @ ''] = 1024.000000'') [0..<10] =
     [''c[0] = 1024.000000'', ''c[1] = 1024.000000'', ''c[2] = 1024.000000'',
      ''c[3] = 1024.000000'', ''c[4] = 1024.000000'', ''c[5] = 1024.000000'',
      ''c[6] = 1024.000000'', ''c[7] = 1024.000000'', ''c[8] = 1024.000000'',
      ''c[9] = 1024.000000'']"
proof -
  have "[0..<10] = [0, 1, 2, 3, 4, 5, 6, 7, 8, 9 :: nat]"
    by (simp add: upt_rec)
  then show ?thesis
    by (simp add: digits.simps)
qed

section \<open>The claims\<close>

text \<open>
  Claim C1. For every length \<open>n\<close> and all inputs \<open>a\<close>, \<open>b\<close> of length \<open>n\<close> with an
  output buffer \<open>c\<close> of length \<open>n\<close> that overlaps neither, \<open>add_arrays_simd\<close> returns, and
  then \<open>c[i]\<close> holds the sum of the values that \<open>a[i]\<close> and \<open>b[i]\<close> had, for every
  \<open>i < n\<close>. This holds for every build that compiles, so for the AVX loop, the SSE2 loop
  and the scalar loop alike, and for every addition \<open>fadd\<close>, IEEE-754 single precision
  among them.
\<close>

theorem add_arrays_simd_sums:
  assumes "compiles env"
    and "buffer (heap st) a n" and "buffer (heap st) b n" and "buffer (heap st) c n"
    and "disjoint c a n" and "disjoint c b n"
  shows "\<exists>st'. add_arrays_simd env fadd a b c n st = Some (Inr st') \<and>
           (\<forall>i<unat n. \<exists>x y. heap st (a + i) = Some x \<and> heap st (b + i) = Some y \<and>
                                heap st' (c + i) = Some (fadd x y))"
proof -
  note run = run_sum [OF assms(1) buffer_limit [OF assms(2)] buffer_cells [OF assms(2)]
      buffer_cells [OF assms(3)] buffer_cells [OF assms(4)] assms(5) assms(6), of fadd]
  have "\<exists>x y. heap st (a + i) = Some x \<and> heap st (b + i) = Some y \<and>
          summed fadd (heap st) a b c (unat n) (c + i) = Some (fadd x y)" if "i < unat n" for i
    using buffer_cell [OF assms(2) that] buffer_cell [OF assms(3) that] that
    by (auto simp: summed_def)
  with run show ?thesis by simp
qed

theorem add_arrays_simd_sums_witness:
  "compiles wide_build \<and> compiles narrow_build \<and> compiles scalar_build \<and>
   buffer (heap demo) 0 9 \<and> buffer (heap demo) 9 9 \<and> buffer (heap demo) 18 9 \<and>
   disjoint 18 0 9 \<and> disjoint 18 9 9 \<and>
   (\<exists>st'. add_arrays_simd wide_build (+) 0 9 18 9 demo = Some (Inr st') \<and>
      heap st' 18 = Some 9 \<and> heap st' 25 = Some 23 \<and> heap st' 26 = Some 25) \<and>
   (\<exists>st'. add_arrays_simd narrow_build (+) 0 9 18 9 demo = Some (Inr st') \<and>
      heap st' 18 = Some 9 \<and> heap st' 25 = Some 23 \<and> heap st' 26 = Some 25) \<and>
   (\<exists>st'. add_arrays_simd scalar_build (+) 0 9 18 9 demo = Some (Inr st') \<and>
      heap st' 18 = Some 9 \<and> heap st' 25 = Some 23 \<and> heap st' 26 = Some 25)"
proof -
  have "\<exists>st'. add_arrays_simd env (+) 0 9 18 9 demo = Some (Inr st') \<and>
         heap st' 18 = Some 9 \<and> heap st' 25 = Some 23 \<and> heap st' 26 = Some 25"
    if env: "compiles env" for env
  proof -
    from add_arrays_simd_sums [OF env demo_hyps(1-5), of "(+)"]
    obtain st' where run: "add_arrays_simd env (+) 0 9 18 9 demo = Some (Inr st')"
      and sums: "\<forall>i<unat (9 :: size_t). \<exists>x y. heap demo (0 + i) = Some x \<and>
          heap demo (9 + i) = Some y \<and> heap st' (18 + i) = Some (x + y)"
      by blast
    from sums [rule_format, of 0] sums [rule_format, of 7] sums [rule_format, of 8]
    have "heap st' 18 = Some 9 \<and> heap st' 25 = Some 23 \<and> heap st' 26 = Some 25"
      by (simp add: demo_def)
    with run show ?thesis by blast
  qed
  with demo_hyps show ?thesis by blast
qed



text \<open>
  Claim C3. In the AVX build (\<open>w = 8\<close>) and in the SSE2 build (\<open>w = 4\<close>) the vector loop
  handles the chunks 0, ..., \<open>n div w - 1\<close>, that is exactly the first \<open>(n div w) * w\<close>
  elements, and the scalar loop after it handles the \<open>n mod w\<close> elements from there to \<open>n\<close>,
  one at a time (three accesses for each); these elements of \<open>c\<close> hold the sums too. For
  \<open>n = 0\<close> nothing but the diagnostic line happens, and the store is unchanged. This holds
  for every \<open>n\<close>, a multiple of \<open>w\<close> or not.
\<close>

theorem remainder_after_chunks:
  assumes "compiles env" and "defined_AVX env \<or> defined_SSE2 env"
    and "buffer (heap st) a n" and "buffer (heap st) b n" and "buffer (heap st) c n"
    and "disjoint c a n" and "disjoint c b n"
    and "w = (if defined_AVX env then 8 else 4)"
  shows "\<exists>st'. add_arrays_simd env fadd a b c n st = Some (Inr st') \<and>
           trace st' = trace st @ Out (diagnostic env) #
             vec_events w a b c 0 (unat n div w) @ scalar_events a b c (unat n div w * w) (unat n) \<and>
           length (scalar_events a b c (unat n div w * w) (unat n)) = 3 * (unat n mod w) \<and>
           (\<forall>i. unat n div w * w \<le> i \<and> i < unat n \<longrightarrow>
              (\<exists>x y. heap st (a + i) = Some x \<and> heap st (b + i) = Some y \<and>
                      heap st' (c + i) = Some (fadd x y))) \<and>
           (n = 0 \<longrightarrow> heap st' = heap st \<and> trace st' = trace st @ [Out (diagnostic env)])"
proof -
  note run = run_sum [OF assms(1) buffer_limit [OF assms(3)] buffer_cells [OF assms(3)]
      buffer_cells [OF assms(4)] buffer_cells [OF assms(5)] assms(6) assms(7), of fadd]
  have acc: "accesses env a b c (unat n) =
      vec_events w a b c 0 (unat n div w) @ scalar_events a b c (unat n div w * w) (unat n)"
    using assms(2) assms(8) by (auto simp: accesses_def)
  have len: "length (scalar_events a b c lo hi) = 3 * (hi - lo)" for lo hi
    by (simp add: scalar_events_def length_concat comp_def sum_list_triv)
  have "unat n - unat n div w * w = unat n mod w"
    by (simp add: minus_div_mult_eq_mod)
  then have cnt: "length (scalar_events a b c (unat n div w * w) (unat n)) = 3 * (unat n mod w)"
    by (simp add: len)
  have sums: "\<exists>x y. heap st (a + i) = Some x \<and> heap st (b + i) = Some y \<and>
          summed fadd (heap st) a b c (unat n) (c + i) = Some (fadd x y)" if "i < unat n" for i
    using buffer_cell [OF assms(3) that] buffer_cell [OF assms(4) that] that
    by (auto simp: summed_def)
  have zero: "summed fadd (heap st) a b c 0 = heap st"
    by (rule ext) (auto simp: summed_def)
  have empty: "accesses env a b c 0 = []"
    by (simp add: accesses_def vec_events_def scalar_events_def)
  have nil: "n = 0 \<Longrightarrow> unat n = 0"
    by simp
  show ?thesis
    using sums cnt zero empty nil by (auto simp: run acc [symmetric])
qed

theorem remainder_after_chunks_witness:
  "compiles wide_build \<and> (defined_AVX wide_build \<or> defined_SSE2 wide_build) \<and>
   (8 :: nat) = (if defined_AVX wide_build then 8 else 4) \<and>
   compiles narrow_build \<and> (defined_AVX narrow_build \<or> defined_SSE2 narrow_build) \<and>
   (4 :: nat) = (if defined_AVX narrow_build then 8 else 4) \<and>
   buffer (heap demo) 0 9 \<and> buffer (heap demo) 9 9 \<and> buffer (heap demo) 18 9 \<and>
   disjoint 18 0 9 \<and> disjoint 18 9 9 \<and>
   (\<exists>st'. add_arrays_simd wide_build (+) 0 9 18 9 demo = Some (Inr st') \<and>
      trace st' = [Out ''AVX is detected.'',
                   Load 0 0 8, Load 9 0 8, Store 18 0 8,
                   Load 0 8 1, Load 9 8 1, Store 18 8 1] \<and>
      heap st' 26 = Some 25) \<and>
   (\<exists>st'. add_arrays_simd narrow_build (+) 0 9 18 9 demo = Some (Inr st') \<and>
      trace st' = [Out ''SSE2 is detected.'',
                   Load 0 0 4, Load 9 0 4, Store 18 0 4,
                   Load 0 4 4, Load 9 4 4, Store 18 4 4,
                   Load 0 8 1, Load 9 8 1, Store 18 8 1] \<and>
      heap st' 26 = Some 25)"
proof -
  have wide: "defined_AVX wide_build \<or> defined_SSE2 wide_build"
    and narrow: "defined_AVX narrow_build \<or> defined_SSE2 narrow_build"
    by (simp_all add: wide_build_def narrow_build_def)
  have w8: "(8 :: nat) = (if defined_AVX wide_build then 8 else 4)"
    and w4: "(4 :: nat) = (if defined_AVX narrow_build then 8 else 4)"
    by (simp_all add: wide_build_def narrow_build_def)
  have ev: "vec_events 8 0 9 18 0 (9 div 8) @ scalar_events 0 9 18 (9 div 8 * 8) 9 =
        [Load 0 0 8, Load 9 0 8, Store 18 0 8, Load 0 8 1, Load 9 8 1, Store 18 8 1]"
    "vec_events 4 0 9 18 0 (9 div 4) @ scalar_events 0 9 18 (9 div 4 * 4) 9 =
        [Load 0 0 4, Load 9 0 4, Store 18 0 4, Load 0 4 4, Load 9 4 4, Store 18 4 4,
         Load 0 8 1, Load 9 8 1, Store 18 8 1]"
    by (simp_all add: vec_events_def scalar_events_def upt_rec)
  have d: "diagnostic wide_build = ''AVX is detected.''"
    "diagnostic narrow_build = ''SSE2 is detected.''"
    by (simp_all add: diagnostic_def wide_build_def narrow_build_def)
  have h: "heap demo (0 + 8) = Some 8" "heap demo (9 + 8) = Some 17" "trace demo = []"
    by (simp_all add: demo_def)
  from remainder_after_chunks [OF demo_hyps(6) wide demo_hyps(1-5) w8, of "(+)"]
  have a: "\<exists>st'. add_arrays_simd wide_build (+) 0 9 18 9 demo = Some (Inr st') \<and>
      trace st' = [Out ''AVX is detected.'',
                   Load 0 0 8, Load 9 0 8, Store 18 0 8,
                   Load 0 8 1, Load 9 8 1, Store 18 8 1] \<and>
      heap st' 26 = Some 25"
    using ev(1) d(1) h by fastforce
  from remainder_after_chunks [OF demo_hyps(7) narrow demo_hyps(1-5) w4, of "(+)"]
  have b: "\<exists>st'. add_arrays_simd narrow_build (+) 0 9 18 9 demo = Some (Inr st') \<and>
      trace st' = [Out ''SSE2 is detected.'',
                   Load 0 0 4, Load 9 0 4, Store 18 0 4,
                   Load 0 4 4, Load 9 4 4, Store 18 4 4,
                   Load 0 8 1, Load 9 8 1, Store 18 8 1] \<and>
      heap st' 26 = Some 25"
    using ev(2) d(2) h by fastforce
  from a b wide narrow w8 w4 demo_hyps show ?thesis by blast
qed

text \<open>
  Claim C4. In the driver (\<open>n = 1024\<close>), when the three blocks that \<open>malloc\<close> returns do
  not overlap, \<open>initialize_arrays\<close> and then \<open>add_arrays_simd\<close> return and every \<open>c[i]\<close> with
  \<open>i < 1024\<close> is the float 1024 (\<open>Finite False (1024 * 2 ^ 149)\<close>, which \<open>%f\<close> prints as
  \<open>1024.000000\<close>). The program exits with status 0, and after the diagnostic line its
  standard output is exactly the ten lines \<open>c[0] = 1024.000000\<close> to \<open>c[9] = 1024.000000\<close>.
  This holds in every build that compiles.
\<close>

theorem driver_prints_sums:
  assumes comp: "compiles env"
    and ab: "disjoint a b 1024" and ca: "disjoint c a 1024" and cb: "disjoint c b 1024"
  shows "\<exists>st4 st5 st'.
      initialize_arrays f32_of_size a b 1024 (after_mallocs a b c junk st) = Inr st4 \<and>
      add_arrays_simd env f32_add a b c 1024 st4 = Some (Inr st5) \<and>
      (\<forall>i<1024. heap st5 (c + i) = Some (Finite False (1024 * 2 ^ 149))) \<and>
      fmt_f (Finite False (1024 * 2 ^ 149)) = ''1024.000000'' \<and>
      main env (Some a) (Some b) (Some c) junk st = Some (Inr (0, st')) \<and>
      stdout_of (trace st') = stdout_of (trace st) @
        [diagnostic env,
         ''c[0] = 1024.000000'', ''c[1] = 1024.000000'', ''c[2] = 1024.000000'',
         ''c[3] = 1024.000000'', ''c[4] = 1024.000000'', ''c[5] = 1024.000000'',
         ''c[6] = 1024.000000'', ''c[7] = 1024.000000'', ''c[8] = 1024.000000'',
         ''c[9] = 1024.000000'']"
proof -
  let ?n = "1024 :: size_t"
  let ?st3 = "after_mallocs a b c junk st"
  let ?h4 = "initialized f32_of_size (heap ?st3) a b ?n (unat ?n)"
  let ?st4 = "\<lparr>heap = ?h4, trace = trace ?st3 @ init_events a b 0 (unat ?n)\<rparr>"
  let ?h5 = "summed f32_add ?h4 a b c (unat ?n)"
  let ?st5 = "\<lparr>heap = ?h5, trace = trace ?st4 @ Out (diagnostic env) # accesses env a b c (unat ?n)\<rparr>"
  let ?st6 = "\<lparr>heap = ?h5, trace = trace ?st5 @ print_events ?h5 c 0 10\<rparr>"
  have init: "initialize_arrays f32_of_size a b ?n ?st3 = Inr ?st4"
    by (rule init_values [OF after_mallocs_cells(1,2) ab])
  have a4: "?h4 (a + i) = Some (f32_of_size (of_nat i))"
    and b4: "?h4 (b + i) = Some (f32_of_size (?n - of_nat i))" if "i < 1024" for i
    using that ab by (auto simp: initialized_def disjoint_def)
  have c4: "?h4 (c + i) \<noteq> None" if "i < 1024" for i
    using that by (simp add: initialized_def after_mallocs_heap)
  have cells4: "\<forall>i<unat ?n. heap ?st4 (a + i) \<noteq> None" "\<forall>i<unat ?n. heap ?st4 (b + i) \<noteq> None"
    "\<forall>i<unat ?n. heap ?st4 (c + i) \<noteq> None"
    using a4 b4 c4 by simp_all
  have add: "add_arrays_simd env f32_add a b c ?n ?st4 = Some (Inr ?st5)"
    using run_sum [OF comp limit_1024 cells4 ca cb, of f32_add] by simp
  have c5: "?h5 (c + i) = Some (Finite False (1024 * 2 ^ 149))" if "i < 1024" for i
  proof -
    have "?h5 (c + i) = Some (f32_add (the (?h4 (a + i))) (the (?h4 (b + i))))"
      using that by (simp add: summed_def)
    then show ?thesis
      by (simp only: a4 [OF that] b4 [OF that] option.sel sum_is_1024 [OF that])
  qed
  then have "\<forall>i<10. ?h5 (c + i) \<noteq> None"
    by simp
  then have pr: "print_loop c 0 ?st5 = Inr ?st6"
    using print_loop_ok [of ?h5 c 0] by simp
  have main: "main env (Some a) (Some b) (Some c) junk st =
      Some (Inr (0, free c 1024 (free b 1024 (free a 1024 ?st6))))"
    by (simp only: main_unfold [OF comp] init add pr sum.case option.case prod.case)
  have lines: "stdout_of (print_events ?h5 c 0 10) =
      map (\<lambda>i. ''c['' @ digits i @ ''] = 1024.000000'') [0..<10]"
    unfolding stdout_of_print_events
  proof (rule map_cong [OF refl])
    fix i assume "i \<in> set [0..<10]"
    then have "i < 1024" by simp
    then show "''c['' @ digits i @ ''] = '' @ fmt_f (the (?h5 (c + i)))
        = ''c['' @ digits i @ ''] = 1024.000000''"
      unfolding c5 [OF \<open>i < 1024\<close>] option.sel fmt_1024 by simp
  qed
  have out: "stdout_of (trace (free c 1024 (free b 1024 (free a 1024 ?st6)))) =
      stdout_of (trace st) @ diagnostic env # map (\<lambda>i. ''c['' @ digits i @ ''] = 1024.000000'') [0..<10]"
  proof -
    have tr: "trace (free c 1024 (free b 1024 (free a 1024 ?st6))) =
        ((trace st @ init_events a b 0 (unat ?n)) @
          Out (diagnostic env) # accesses env a b c (unat ?n)) @ print_events ?h5 c 0 10"
      by (simp add: after_mallocs_trace)
    have one: "stdout_of (Out d # t) = d # stdout_of t" for d t
      by (simp add: stdout_of_def)
    show ?thesis
      unfolding tr stdout_of_append one stdout_of_init_events stdout_of_accesses lines
      by simp
  qed
  let ?fin = "free c 1024 (free b 1024 (free a 1024 ?st6))"
  have c5': "\<forall>i<1024. heap ?st5 (c + i) = Some (Finite False (1024 * 2 ^ 149))"
    using c5 by simp
  from init add c5' fmt_1024 main out [unfolded ten_lines] show ?thesis
    by - (rule exI [of _ ?st4], rule exI [of _ ?st5], rule exI [of _ ?fin], intro conjI,
      assumption+)
qed

theorem driver_prints_sums_witness:
  "compiles wide_build \<and> disjoint 0 1024 1024 \<and> disjoint 2048 0 1024 \<and> disjoint 2048 1024 1024 \<and>
   (\<exists>st'. main wide_build (Some 0) (Some 1024) (Some 2048) (\<lambda>q. NaN) fresh = Some (Inr (0, st')) \<and>
      stdout_of (trace st') =
        [''AVX is detected.'',
         ''c[0] = 1024.000000'', ''c[1] = 1024.000000'', ''c[2] = 1024.000000'',
         ''c[3] = 1024.000000'', ''c[4] = 1024.000000'', ''c[5] = 1024.000000'',
         ''c[6] = 1024.000000'', ''c[7] = 1024.000000'', ''c[8] = 1024.000000'',
         ''c[9] = 1024.000000''])"
proof -
  have hyps: "compiles wide_build" "disjoint 0 1024 1024" "disjoint 2048 0 1024"
    "disjoint 2048 1024 1024"
    by (simp_all add: compiles_def wide_build_def disjoint_def)
  have d: "diagnostic wide_build = ''AVX is detected.''"
    by (simp add: diagnostic_def wide_build_def)
  have t: "stdout_of (trace fresh) = []"
    by (simp add: fresh_def stdout_of_def)
  from driver_prints_sums [OF hyps, of "\<lambda>q. NaN" fresh] hyps show ?thesis
    unfolding d t append_Nil by blast
qed

text \<open>
  Claim C5. For every \<open>n\<close>, on two buffers of \<open>n\<close> elements that do not overlap,
  \<open>initialize_arrays\<close> returns and leaves \<open>a[i] = (float)i\<close> and \<open>b[i] = (float)(n - i)\<close>
  for every \<open>i < n\<close>: values that depend on \<open>i\<close> and \<open>n\<close> only, whatever the buffers held.
\<close>

theorem initialize_arrays_pattern:
  assumes "buffer (heap st) a n" and "buffer (heap st) b n" and "disjoint a b n"
  shows "\<exists>st'. initialize_arrays to_float a b n st = Inr st' \<and>
           (\<forall>i<unat n. heap st' (a + i) = Some (to_float (of_nat i)) \<and>
                        heap st' (b + i) = Some (to_float (n - of_nat i)))"
proof -
  note run = init_values [OF buffer_cells [OF assms(1)] buffer_cells [OF assms(2)] assms(3),
      of to_float]
  have "initialized to_float (heap st) a b n (unat n) (a + i) = Some (to_float (of_nat i)) \<and>
        initialized to_float (heap st) a b n (unat n) (b + i) = Some (to_float (n - of_nat i))"
    if "i < unat n" for i
    using that assms(3) by (auto simp: initialized_def disjoint_def)
  then show ?thesis
    by (simp add: run)
qed

theorem initialize_arrays_pattern_witness:
  "buffer (heap \<lparr>heap = (\<lambda>p. if p < 6 then Some NaN else None), trace = []\<rparr>) 0 3 \<and>
   buffer (heap \<lparr>heap = (\<lambda>p. if p < 6 then Some NaN else None), trace = []\<rparr>) 3 3 \<and>
   disjoint 0 3 3 \<and>
   (\<exists>st'. initialize_arrays f32_of_size 0 3 3
             \<lparr>heap = (\<lambda>p. if p < 6 then Some NaN else None), trace = []\<rparr> = Inr st' \<and>
      heap st' 0 = Some (f32_of_size 0) \<and> heap st' 2 = Some (f32_of_size 2) \<and>
      heap st' 3 = Some (f32_of_size 3) \<and> heap st' 5 = Some (f32_of_size 1))"
proof -
  let ?st = "\<lparr>heap = (\<lambda>p. if p < 6 then Some NaN else None), trace = []\<rparr> :: f32 state"
  have hyps: "buffer (heap ?st) 0 3" "buffer (heap ?st) 3 3" "disjoint 0 3 3"
    by (simp_all add: buffer_def cell_limit_def disjoint_def)
  from initialize_arrays_pattern [OF hyps, of f32_of_size]
  obtain st' where run: "initialize_arrays f32_of_size 0 3 3 ?st = Inr st'"
    and vals: "\<forall>i<unat (3 :: size_t). heap st' (0 + i) = Some (f32_of_size (of_nat i)) \<and>
        heap st' (3 + i) = Some (f32_of_size (3 - of_nat i))"
    by blast
  have "0 < unat (3 :: size_t)" "2 < unat (3 :: size_t)"
    by simp_all
  with vals have "(heap st' (0 + 0) = Some (f32_of_size (of_nat 0)) \<and>
        heap st' (3 + 0) = Some (f32_of_size (3 - of_nat 0))) \<and>
      (heap st' (0 + 2) = Some (f32_of_size (of_nat 2)) \<and>
        heap st' (3 + 2) = Some (f32_of_size (3 - of_nat 2)))"
    by blast
  then have "heap st' 0 = Some (f32_of_size 0) \<and> heap st' 2 = Some (f32_of_size 2) \<and>
      heap st' 3 = Some (f32_of_size 3) \<and> heap st' 5 = Some (f32_of_size 1)"
    by (simp del: add_2_eq_Suc add_2_eq_Suc')
  with run hyps show ?thesis by blast
qed

text \<open>
  Claim C6. In a build that compiles: if one of the three calls of \<open>malloc\<close> returns the
  null pointer, the program exits with status 1 and all it has done is to write the line
  \<open>Memory allocation failed\<close> to standard error: the trace has no store, no load and no
  line of standard output. If all three calls succeed, it exits with status 0.
\<close>

theorem allocation_failure_exit:
  assumes "compiles env"
  shows "(ra = None \<or> rb = None \<or> rc = None \<longrightarrow>
            (\<exists>st'. main env ra rb rc junk st = Some (Inr (1, st')) \<and>
                   trace st' = trace st @ [Err ''Memory allocation failed''])) \<and>
         (ra \<noteq> None \<and> rb \<noteq> None \<and> rc \<noteq> None \<longrightarrow>
            (\<exists>st'. main env ra rb rc junk st = Some (Inr (0, st'))))"
proof (intro conjI impI)
  assume "ra = None \<or> rb = None \<or> rc = None"
  then show "\<exists>st'. main env ra rb rc junk st = Some (Inr (1, st')) \<and>
      trace st' = trace st @ [Err ''Memory allocation failed'']"
    using assms by (auto simp: main_def malloc_def split: option.splits)
next
  assume "ra \<noteq> None \<and> rb \<noteq> None \<and> rc \<noteq> None"
  then obtain a b c where "ra = Some a" "rb = Some b" "rc = Some c"
    by auto
  then show "\<exists>st'. main env ra rb rc junk st = Some (Inr (0, st'))"
    using main_exits_0 [OF assms] by simp
qed

theorem allocation_failure_exit_witness:
  "compiles scalar_build \<and>
   (\<exists>st'. main scalar_build None (Some 0) (Some 1024) (\<lambda>q. NaN) fresh = Some (Inr (1, st')) \<and>
      trace st' = [Err ''Memory allocation failed'']) \<and>
   (\<exists>st'. main scalar_build (Some 0) None (Some 1024) (\<lambda>q. NaN) fresh = Some (Inr (1, st')) \<and>
      trace st' = [Err ''Memory allocation failed'']) \<and>
   (\<exists>st'. main scalar_build (Some 0) (Some 1024) None (\<lambda>q. NaN) fresh = Some (Inr (1, st')) \<and>
      trace st' = [Err ''Memory allocation failed'']) \<and>
   (\<exists>st'. main scalar_build (Some 0) (Some 1024) (Some 2048) (\<lambda>q. NaN) fresh = Some (Inr (0, st')))"
proof -
  have comp: "compiles scalar_build"
    by (simp add: compiles_def scalar_build_def)
  have t: "trace fresh = []"
    by (simp add: fresh_def)
  show ?thesis
    using comp
      allocation_failure_exit [OF comp, of None "Some 0" "Some 1024" "\<lambda>q. NaN" fresh]
      allocation_failure_exit [OF comp, of "Some 0" None "Some 1024" "\<lambda>q. NaN" fresh]
      allocation_failure_exit [OF comp, of "Some 0" "Some 1024" None "\<lambda>q. NaN" fresh]
      allocation_failure_exit [OF comp, of "Some 0" "Some 1024" "Some 2048" "\<lambda>q. NaN" fresh]
    by (simp add: t)
qed

text \<open>
  Claim C7. The branch is chosen from the build alone, by priority. With \<open>__AVX__\<close> defined
  the call prints the AVX line and runs chunks of 8, whatever \<open>__SSE2__\<close> is; otherwise
  with \<open>__SSE2__\<close> defined it is the SSE2 branch (chunks of 4, or no program at all where
  \<open>SSE2\<close> is not a macro); otherwise the scalar loop. The statement is for every call, so
  no array and no length changes the choice.
\<close>

theorem strategy_priority:
  assumes "buffer (heap st) a n" and "buffer (heap st) b n" and "buffer (heap st) c n"
  shows "(defined_AVX env \<longrightarrow>
            (\<exists>h. add_arrays_simd env fadd a b c n st =
               Some (Inr \<lparr>heap = h, trace = trace st @ Out ''AVX is detected.'' #
                 vec_events 8 a b c 0 (unat n div 8) @
                 scalar_events a b c (unat n div 8 * 8) (unat n)\<rparr>))) \<and>
         (\<not> defined_AVX env \<and> defined_SSE2 env \<longrightarrow>
            (case macro_SSE2 env of
               None \<Rightarrow> add_arrays_simd env fadd a b c n st = Some (Inl CompileError)
             | Some s \<Rightarrow>
                 (\<exists>h. add_arrays_simd env fadd a b c n st =
                    Some (Inr \<lparr>heap = h, trace = trace st @ Out (s @ ''is detected.'') #
                      vec_events 4 a b c 0 (unat n div 4) @
                      scalar_events a b c (unat n div 4 * 4) (unat n)\<rparr>)))) \<and>
         (\<not> defined_AVX env \<and> \<not> defined_SSE2 env \<longrightarrow>
            (\<exists>h. add_arrays_simd env fadd a b c n st =
               Some (Inr \<lparr>heap = h, trace = trace st @ Out ''no SIMD extension is detected.'' #
                 scalar_events a b c 0 (unat n)\<rparr>)))"
proof -
  have run: "\<exists>h. add_arrays_simd env fadd a b c n st =
      Some (Inr \<lparr>heap = h, trace = trace st @ Out (diagnostic env) # accesses env a b c (unat n)\<rparr>)"
    if "compiles env"
    using run_alloc [OF that buffer_limit [OF assms(1)] buffer_cells [OF assms(1)]
      buffer_cells [OF assms(2)] buffer_cells [OF assms(3)], of fadd]
    by blast
  have wide: ?thesis if avx: "defined_AVX env"
  proof -
    from avx have "compiles env" by (simp add: compiles_def)
    from run [OF this] avx show ?thesis
      by (simp add: diagnostic_def accesses_def)
  qed
  have scalar: ?thesis if no: "\<not> defined_AVX env" "\<not> defined_SSE2 env"
  proof -
    from no have "compiles env" by (simp add: compiles_def)
    from run [OF this] no show ?thesis
      by (simp add: diagnostic_def accesses_def)
  qed
  have narrow: ?thesis if sse: "\<not> defined_AVX env" "defined_SSE2 env"
  proof (cases "macro_SSE2 env")
    case None
    with sse show ?thesis
      by (simp add: add_arrays_simd_def)
  next
    case (Some s)
    with sse have "compiles env" by (simp add: compiles_def)
    from run [OF this] sse Some show ?thesis
      by (simp add: diagnostic_def accesses_def)
  qed
  from wide narrow scalar show ?thesis by blast
qed

theorem strategy_priority_witness:
  "buffer (heap demo) 0 9 \<and> buffer (heap demo) 9 9 \<and> buffer (heap demo) 18 9 \<and>
   (\<exists>h. add_arrays_simd \<lparr>defined_AVX = True, defined_SSE2 = True, macro_SSE2 = None\<rparr>
           (+) 0 9 18 9 demo =
      Some (Inr \<lparr>heap = h, trace = [Out ''AVX is detected.'',
         Load 0 0 8, Load 9 0 8, Store 18 0 8, Load 0 8 1, Load 9 8 1, Store 18 8 1]\<rparr>)) \<and>
   (\<exists>h. add_arrays_simd \<lparr>defined_AVX = True, defined_SSE2 = False, macro_SSE2 = None\<rparr>
           (+) 0 9 18 9 demo =
      Some (Inr \<lparr>heap = h, trace = [Out ''AVX is detected.'',
         Load 0 0 8, Load 9 0 8, Store 18 0 8, Load 0 8 1, Load 9 8 1, Store 18 8 1]\<rparr>)) \<and>
   (\<exists>h. add_arrays_simd \<lparr>defined_AVX = False, defined_SSE2 = True, macro_SSE2 = Some ''SSE2 ''\<rparr>
           (+) 0 9 18 9 demo =
      Some (Inr \<lparr>heap = h, trace = [Out ''SSE2 is detected.'',
         Load 0 0 4, Load 9 0 4, Store 18 0 4, Load 0 4 4, Load 9 4 4, Store 18 4 4,
         Load 0 8 1, Load 9 8 1, Store 18 8 1]\<rparr>)) \<and>
   (\<exists>h. add_arrays_simd \<lparr>defined_AVX = False, defined_SSE2 = False, macro_SSE2 = None\<rparr>
           (+) 0 3 6 3 demo =
      Some (Inr \<lparr>heap = h, trace = [Out ''no SIMD extension is detected.'',
         Load 0 0 1, Load 3 0 1, Store 6 0 1, Load 0 1 1, Load 3 1 1, Store 6 1 1,
         Load 0 2 1, Load 3 2 1, Store 6 2 1]\<rparr>))"
proof -
  have small: "buffer (heap demo) 0 3" "buffer (heap demo) 3 3" "buffer (heap demo) 6 3"
    by (simp_all add: buffer_def cell_limit_def demo_def)
  have ev: "vec_events 8 0 9 18 0 (9 div 8) @ scalar_events 0 9 18 (9 div 8 * 8) 9 =
        [Load 0 0 8, Load 9 0 8, Store 18 0 8, Load 0 8 1, Load 9 8 1, Store 18 8 1]"
    "vec_events 4 0 9 18 0 (9 div 4) @ scalar_events 0 9 18 (9 div 4 * 4) 9 =
        [Load 0 0 4, Load 9 0 4, Store 18 0 4, Load 0 4 4, Load 9 4 4, Store 18 4 4,
         Load 0 8 1, Load 9 8 1, Store 18 8 1]"
    "scalar_events 0 3 6 0 3 =
        [Load 0 0 1, Load 3 0 1, Store 6 0 1, Load 0 1 1, Load 3 1 1, Store 6 1 1,
         Load 0 2 1, Load 3 2 1, Store 6 2 1]"
    by (simp_all add: vec_events_def scalar_events_def upt_rec)
  have t: "trace demo = []"
    by (simp add: demo_def)
  show ?thesis
    using demo_hyps(1-3)
      strategy_priority [OF demo_hyps(1-3),
        of "\<lparr>defined_AVX = True, defined_SSE2 = True, macro_SSE2 = None\<rparr>" "(+)"]
      strategy_priority [OF demo_hyps(1-3),
        of "\<lparr>defined_AVX = True, defined_SSE2 = False, macro_SSE2 = None\<rparr>" "(+)"]
      strategy_priority [OF demo_hyps(1-3),
        of "\<lparr>defined_AVX = False, defined_SSE2 = True, macro_SSE2 = Some ''SSE2 ''\<rparr>" "(+)"]
      strategy_priority [OF small,
        of "\<lparr>defined_AVX = False, defined_SSE2 = False, macro_SSE2 = None\<rparr>" "(+)"]
      ev t
    by simp
qed

text \<open>
  Claim C8 says that the SSE2 branch prints one fixed line that names it. The code does not:
  with \<open>__SSE2__\<close> defined, \<open>__AVX__\<close> not and no macro \<open>SSE2\<close>, the argument of \<open>puts\<close> is
  an undeclared identifier and the build is rejected.
\<close>

theorem narrow_build_rejected:
  "add_arrays_simd \<lparr>defined_AVX = False, defined_SSE2 = True, macro_SSE2 = None\<rparr> fadd a b c n st
     = Some (Inl CompileError)"
  by (simp add: add_arrays_simd_def)

text \<open>
  Claim C9. When \<open>c\<close> overlaps neither \<open>a\<close> nor \<open>b\<close>, every element of \<open>a\<close> and of \<open>b\<close>
  holds its original value after the call, in every build that compiles; indeed every cell
  outside \<open>c\<close> does.
\<close>

theorem inputs_unchanged:
  assumes "compiles env"
    and "buffer (heap st) a n" and "buffer (heap st) b n" and "buffer (heap st) c n"
    and "disjoint c a n" and "disjoint c b n"
  shows "\<exists>st'. add_arrays_simd env fadd a b c n st = Some (Inr st') \<and>
           (\<forall>i<unat n. heap st' (a + i) = heap st (a + i) \<and> heap st' (b + i) = heap st (b + i)) \<and>
           (\<forall>q. \<not> (c \<le> q \<and> q < c + unat n) \<longrightarrow> heap st' q = heap st q)"
proof -
  note run = run_sum [OF assms(1) buffer_limit [OF assms(2)] buffer_cells [OF assms(2)]
      buffer_cells [OF assms(3)] buffer_cells [OF assms(4)] assms(5) assms(6), of fadd]
  have "summed fadd (heap st) a b c (unat n) (a + i) = heap st (a + i) \<and>
        summed fadd (heap st) a b c (unat n) (b + i) = heap st (b + i)" if "i < unat n" for i
    by (simp add: summed_outside [OF assms(5) that] summed_outside [OF assms(6) that])
  moreover have "summed fadd (heap st) a b c (unat n) q = heap st q"
    if "\<not> (c \<le> q \<and> q < c + unat n)" for q
    using that by (auto simp: summed_def)
  ultimately show ?thesis
    by (simp add: run)
qed

theorem inputs_unchanged_witness:
  "compiles wide_build \<and> compiles narrow_build \<and> compiles scalar_build \<and>
   buffer (heap demo) 0 9 \<and> buffer (heap demo) 9 9 \<and> buffer (heap demo) 18 9 \<and>
   disjoint 18 0 9 \<and> disjoint 18 9 9 \<and>
   (\<exists>st'. add_arrays_simd wide_build (+) 0 9 18 9 demo = Some (Inr st') \<and>
      heap st' 0 = Some 0 \<and> heap st' 8 = Some 8 \<and> heap st' 9 = Some 9 \<and> heap st' 17 = Some 17) \<and>
   (\<exists>st'. add_arrays_simd narrow_build (+) 0 9 18 9 demo = Some (Inr st') \<and>
      heap st' 0 = Some 0 \<and> heap st' 8 = Some 8 \<and> heap st' 9 = Some 9 \<and> heap st' 17 = Some 17) \<and>
   (\<exists>st'. add_arrays_simd scalar_build (+) 0 9 18 9 demo = Some (Inr st') \<and>
      heap st' 0 = Some 0 \<and> heap st' 8 = Some 8 \<and> heap st' 9 = Some 9 \<and> heap st' 17 = Some 17)"
proof -
  have "\<exists>st'. add_arrays_simd env (+) 0 9 18 9 demo = Some (Inr st') \<and>
      heap st' 0 = Some 0 \<and> heap st' 8 = Some 8 \<and> heap st' 9 = Some 9 \<and> heap st' 17 = Some 17"
    if env: "compiles env" for env
  proof -
    from inputs_unchanged [OF env demo_hyps(1-5), of "(+)"]
    obtain st' where run: "add_arrays_simd env (+) 0 9 18 9 demo = Some (Inr st')"
      and same: "\<forall>i<unat (9 :: size_t). heap st' (0 + i) = heap demo (0 + i) \<and>
          heap st' (9 + i) = heap demo (9 + i)"
      by blast
    from same [rule_format, of 0] same [rule_format, of 8]
    have "heap st' 0 = Some 0 \<and> heap st' 8 = Some 8 \<and> heap st' 9 = Some 9 \<and> heap st' 17 = Some 17"
      by (simp add: demo_def)
    with run show ?thesis by blast
  qed
  with demo_hyps show ?thesis by blast
qed

text \<open>
  Claim C10. When \<open>a\<close>, \<open>b\<close> and \<open>c\<close> have \<open>n\<close> elements each, the call ends without a
  fault, and every access it makes is in bounds: a vector load or store at \<open>i\<close> touches
  \<open>i\<close>, ..., \<open>i + w - 1\<close> with \<open>i + w \<le> n\<close>, a scalar one touches \<open>i < n\<close>. The buffers may
  overlap here.
\<close>

theorem accesses_within_buffers:
  assumes "compiles env"
    and "buffer (heap st) a n" and "buffer (heap st) b n" and "buffer (heap st) c n"
  shows "\<exists>st' t. add_arrays_simd env fadd a b c n st = Some (Inr st') \<and>
           trace st' = trace st @ t \<and> list_all (in_bounds a b c (unat n)) t"
proof -
  from run_alloc [OF assms(1) buffer_limit [OF assms(2)] buffer_cells [OF assms(2)]
      buffer_cells [OF assms(3)] buffer_cells [OF assms(4)], of fadd]
  obtain h' where "add_arrays_simd env fadd a b c n st =
      Some (Inr \<lparr>heap = h', trace = trace st @ Out (diagnostic env) # accesses env a b c (unat n)\<rparr>)"
    by blast
  moreover have "list_all (in_bounds a b c (unat n)) (Out (diagnostic env) # accesses env a b c (unat n))"
    by (simp add: accesses_in_bounds)
  ultimately show ?thesis
    by (metis state.select_convs(2))
qed

theorem accesses_within_buffers_witness:
  "compiles wide_build \<and> compiles narrow_build \<and> compiles scalar_build \<and>
   buffer (heap demo) 0 9 \<and> buffer (heap demo) 9 9 \<and> buffer (heap demo) 18 9 \<and>
   (\<exists>st' t. add_arrays_simd wide_build (+) 0 9 18 9 demo = Some (Inr st') \<and>
      trace st' = trace demo @ t \<and> list_all (in_bounds 0 9 18 9) t) \<and>
   (\<exists>st' t. add_arrays_simd narrow_build (+) 0 9 18 9 demo = Some (Inr st') \<and>
      trace st' = trace demo @ t \<and> list_all (in_bounds 0 9 18 9) t) \<and>
   (\<exists>st' t. add_arrays_simd scalar_build (+) 0 9 18 9 demo = Some (Inr st') \<and>
      trace st' = trace demo @ t \<and> list_all (in_bounds 0 9 18 9) t)"
  using demo_hyps
    accesses_within_buffers [OF demo_hyps(6) demo_hyps(1-3), of "(+)"]
    accesses_within_buffers [OF demo_hyps(7) demo_hyps(1-3), of "(+)"]
    accesses_within_buffers [OF demo_hyps(8) demo_hyps(1-3), of "(+)"]
  by simp

end
